theory Spec2Isabelle
  imports Complex_Main
begin

section \<open>The fluid solver of aerograph (utils/fluidSolver.ts)\<close>

text \<open>
  A shallow embedding of the class \<open>FluidSolver\<close> and of the reset handler of \<open>App.tsx\<close>.

  Numbers. The source computes with JavaScript numbers (IEEE doubles) and stores the cells in
  \<open>Float32Array\<close>s. Here a cell value is a \<open>real\<close>, and there is no NaN and no
  infinity. The two injection methods round as the source does: the sum is a double, and the
  store rounds it to single precision (\<open>to_float32\<close> and \<open>to_double\<close> below). The stages of
  \<open>step\<close> are embedded with exact arithmetic. The statements about \<open>step\<close> either hold for
  the rounded computation as they stand (signs, zero, bounds that rounding to the nearest
  number keeps, values that are single-precision numbers), or they describe the formula that
  a stage evaluates (the projection). A statement of the first kind about an arbitrary state
  carries the hypothesis \<open>finite_range\<close>, under which no product or sum of the source
  overflows.

  Division by zero. \<open>lin_solve\<close> computes \<open>1.0 / c\<close>. With \<open>c = 0\<close> the reciprocal is
  infinite in the source, and every interior cell written with it becomes infinite or NaN. The
  source raises nothing there; the model, which has no such values, returns the marker
  \<open>NonFinite\<close> exactly when a cell is written with that reciprocal.

  Integers. Grid coordinates, the grid size and the iteration count are integers (\<open>int\<close>);
  a fractional grid size, which the type \<open>number\<close> of the source admits, is not modelled.

  Buffers. A \<open>Float32Array\<close> is a \<open>real list\<close>. A write \<open>x[k] = v\<close> is \<open>x[k := v]\<close>,
  which like the typed array ignores an index beyond the length. A read beyond the length
  (\<open>undefined\<close> in the source) does not occur in a solver whose buffers have the allocated
  length \<open>(N + 2) * (N + 2)\<close> with \<open>0 \<le> N\<close>; the theorems below assume that shape.

  Aliasing. Every method call of \<open>step\<close> passes pairwise distinct arrays for the buffers it
  writes and never writes a buffer it reads through another parameter, so passing the buffers
  as values and returning the written ones is exact.
\<close>

subsection \<open>State\<close>

type_synonym field = "real list"

record solver =
  sizeN :: int
  dt :: real
  diff :: real
  visc :: real
  s :: field
  density :: field
  Vx :: field
  Vy :: field
  Vx0 :: field
  Vy0 :: field

text \<open>
  \<open>InvalidConfiguration\<close> is the failure the specification names for construction; no
  statement of the source raises it. \<open>RangeError\<close> is what \<open>new Float32Array(n)\<close> throws when
  \<open>n\<close> is more than the engine allocates. \<open>NonFinite\<close> marks cells that are infinite or NaN
  after a division by zero (see above).
\<close>

datatype error = InvalidConfiguration | RangeError | NonFinite

text \<open>
  The constructor: it stores its four arguments and allocates six zero-filled arrays of
  \<open>(N + 2) * (N + 2)\<close> cells; a negative length does not occur, the product being a square.
  The largest length for which the engine allocates a typed array is not part of the
  repository; it is the parameter \<open>maxLength\<close> (the language puts it at \<open>2\<^sup>5\<^sup>3 - 1\<close> at most).
\<close>

definition FluidSolver :: "nat \<Rightarrow> int \<Rightarrow> real \<Rightarrow> real \<Rightarrow> real \<Rightarrow> error + solver" where
  "FluidSolver maxLength size' diffusion viscosity dt' =
     (let N = size';
          arraySize = nat ((N + 2) * (N + 2))
      in if maxLength < arraySize then Inl RangeError
         else Inr \<lparr> sizeN = size', dt = dt', diff = diffusion, visc = viscosity,
                    s = replicate arraySize 0,
                    density = replicate arraySize 0,
                    Vx = replicate arraySize 0,
                    Vy = replicate arraySize 0,
                    Vx0 = replicate arraySize 0,
                    Vy0 = replicate arraySize 0 \<rparr>)"

text \<open>
  \<open>new_solver size diffusion viscosity dt\<close> is the object that the constructor returns when
  the six allocations succeed.
\<close>

definition new_solver :: "int \<Rightarrow> real \<Rightarrow> real \<Rightarrow> real \<Rightarrow> solver" where
  "new_solver size' diffusion viscosity dt' =
     \<lparr> sizeN = size', dt = dt', diff = diffusion, visc = viscosity,
       s = replicate (nat ((size' + 2) * (size' + 2))) 0,
       density = replicate (nat ((size' + 2) * (size' + 2))) 0,
       Vx = replicate (nat ((size' + 2) * (size' + 2))) 0,
       Vy = replicate (nat ((size' + 2) * (size' + 2))) 0,
       Vx0 = replicate (nat ((size' + 2) * (size' + 2))) 0,
       Vy0 = replicate (nat ((size' + 2) * (size' + 2))) 0 \<rparr>"

subsection \<open>Coordinate flattening\<close>

definition IX :: "int \<Rightarrow> int \<Rightarrow> int \<Rightarrow> int" where
  "IX N x y =
     (let x' = max 0 (min x (N + 1));
          y' = max 0 (min y (N + 1))
      in x' + (N + 2) * y')"

text \<open>\<open>x[this.IX(i, j)]\<close> as an expression, and the assignment \<open>x[this.IX(i, j)] = v\<close>.\<close>

definition rd :: "int \<Rightarrow> field \<Rightarrow> int \<Rightarrow> int \<Rightarrow> real" where
  "rd N x i j = x ! nat (IX N i j)"

definition wr :: "int \<Rightarrow> field \<Rightarrow> int \<Rightarrow> int \<Rightarrow> real \<Rightarrow> field" where
  "wr N x i j v = x[nat (IX N i j) := v]"

subsection \<open>Rounding\<close>

text \<open>
  \<open>round_to p emin v\<close> is the binary floating-point number of precision \<open>p\<close> and least
  exponent \<open>emin\<close> nearest to \<open>v\<close>, ties going to the even significand: the numbers near \<open>v\<close>
  are the multiples of \<open>q = 2\<^bsup>e - (p - 1)\<^esup>\<close>, where \<open>e\<close> is the exponent of \<open>v\<close>, or \<open>emin\<close>
  for a subnormal \<open>v\<close>. A double has \<open>p = 53\<close> and \<open>emin = - 1022\<close>, a single-precision number
  \<open>p = 24\<close> and \<open>emin = - 126\<close>. Beyond the largest number of the format the source has an
  infinity; \<open>round_to\<close> is not meant there, and the statements that use it say so.
\<close>

definition round_even :: "real \<Rightarrow> int" where
  "round_even v =
     (let f = \<lfloor>v\<rfloor>
      in if v - real_of_int f < 1/2 then f
         else if 1/2 < v - real_of_int f then f + 1
         else if even f then f else f + 1)"

definition round_to :: "nat \<Rightarrow> int \<Rightarrow> real \<Rightarrow> real" where
  "round_to p emin v =
     (if v = 0 then 0
      else let e = max \<lfloor>log 2 \<bar>v\<bar>\<rfloor> emin;
               q = 2 powr real_of_int (e - (int p - 1))
           in q * real_of_int (round_even (v / q)))"

definition to_double :: "real \<Rightarrow> real" where
  "to_double v = round_to 53 (- 1022) v"

definition to_float32 :: "real \<Rightarrow> real" where
  "to_float32 v = round_to 24 (- 126) v"

subsection \<open>Injection\<close>

text \<open>
  \<open>this.density[index] += amount\<close>: the cell is read, the sum is formed as a double, and the
  store into the \<open>Float32Array\<close> rounds it to single precision.
\<close>

definition addDensity :: "solver \<Rightarrow> int \<Rightarrow> int \<Rightarrow> real \<Rightarrow> solver" where
  "addDensity S x y amount =
     (let index = nat (IX (sizeN S) x y)
      in S\<lparr> density :=
              (density S)[index := to_float32 (to_double (density S ! index + amount))] \<rparr>)"

definition addVelocity :: "solver \<Rightarrow> int \<Rightarrow> int \<Rightarrow> real \<Rightarrow> real \<Rightarrow> solver" where
  "addVelocity S x y amountX amountY =
     (let index = nat (IX (sizeN S) x y)
      in S\<lparr> Vx := (Vx S)[index := to_float32 (to_double (Vx S ! index + amountX))],
             Vy := (Vy S)[index := to_float32 (to_double (Vy S ! index + amountY))] \<rparr>)"

subsection \<open>Boundary handler\<close>

text \<open>
  The parameter \<open>b\<close> is the boundary kind: \<open>1\<close> for the velocity along x, \<open>2\<close> for the
  velocity along y, and anything else (the source passes \<open>0\<close>) for a scalar field.
  \<open>set_bnd_col\<close> is the body of the first loop (the cells above and below column \<open>i\<close>),
  \<open>set_bnd_row\<close> the body of the second (the cells left and right of row \<open>j\<close>).
\<close>

definition set_bnd_col :: "int \<Rightarrow> int \<Rightarrow> int \<Rightarrow> field \<Rightarrow> field" where
  "set_bnd_col N b i x =
     (let x1 = wr N x i 0 (if b = 2 then - rd N x i 1 else rd N x i 1)
      in wr N x1 i (N + 1) (if b = 2 then - rd N x1 i N else rd N x1 i N))"

definition set_bnd_row :: "int \<Rightarrow> int \<Rightarrow> int \<Rightarrow> field \<Rightarrow> field" where
  "set_bnd_row N b j x =
     (let x1 = wr N x 0 j (if b = 1 then - rd N x 1 j else rd N x 1 j)
      in wr N x1 (N + 1) j (if b = 1 then - rd N x1 N j else rd N x1 N j))"

definition set_bnd_corners :: "int \<Rightarrow> field \<Rightarrow> field" where
  "set_bnd_corners N x =
     (let x1 = wr N x 0 0 (0.5 * (rd N x 1 0 + rd N x 0 1));
          x2 = wr N x1 0 (N + 1) (0.5 * (rd N x1 1 (N + 1) + rd N x1 0 N));
          x3 = wr N x2 (N + 1) 0 (0.5 * (rd N x2 N 0 + rd N x2 (N + 1) 1))
      in wr N x3 (N + 1) (N + 1) (0.5 * (rd N x3 N (N + 1) + rd N x3 (N + 1) N)))"

definition set_bnd :: "int \<Rightarrow> int \<Rightarrow> field \<Rightarrow> field" where
  "set_bnd N b x =
     set_bnd_corners N (fold (set_bnd_row N b) [1..N] (fold (set_bnd_col N b) [1..N] x))"

subsection \<open>Relaxation solver\<close>

definition lin_solve_cell :: "int \<Rightarrow> field \<Rightarrow> real \<Rightarrow> real \<Rightarrow> int \<Rightarrow> int \<Rightarrow> field \<Rightarrow> field" where
  "lin_solve_cell N x0 a cRecip j i x =
     wr N x i j
       ((rd N x0 i j +
         a * (rd N x (i + 1) j + rd N x (i - 1) j + rd N x i (j + 1) + rd N x i (j - 1)))
        * cRecip)"

text \<open>One pass of the loop over \<open>k\<close>: the sweep over the interior, then the boundary.\<close>

definition lin_solve_sweep :: "int \<Rightarrow> int \<Rightarrow> field \<Rightarrow> real \<Rightarrow> real \<Rightarrow> field \<Rightarrow> field" where
  "lin_solve_sweep N b x0 a cRecip x =
     set_bnd N b (fold (\<lambda>j. fold (lin_solve_cell N x0 a cRecip j) [1..N]) [1..N] x)"

primrec lin_solve_loop :: "nat \<Rightarrow> int \<Rightarrow> int \<Rightarrow> field \<Rightarrow> real \<Rightarrow> real \<Rightarrow> field \<Rightarrow> field" where
  "lin_solve_loop 0 N b x0 a cRecip x = x"
| "lin_solve_loop (Suc k) N b x0 a cRecip x =
     lin_solve_loop k N b x0 a cRecip (lin_solve_sweep N b x0 a cRecip x)"

text \<open>
  \<open>for (k = 0; k < iter; k++)\<close> runs \<open>nat iter\<close> times. The result is the array \<open>x\<close>; \<open>x0\<close>
  is only read. The reciprocal \<open>cRecip\<close> is used in the update of an interior cell and nowhere
  else: with \<open>c = 0\<close> a cell is written with the infinite reciprocal when there is a sweep
  (\<open>1 \<le> iter\<close>) and an interior cell (\<open>1 \<le> N\<close>), and otherwise \<open>x\<close> is as without it.
\<close>

definition lin_solve :: "int \<Rightarrow> int \<Rightarrow> field \<Rightarrow> field \<Rightarrow> real \<Rightarrow> real \<Rightarrow> int \<Rightarrow> error + field" where
  "lin_solve N b x x0 a c iter =
     (if c = 0 \<and> 1 \<le> iter \<and> 1 \<le> N then Inl NonFinite
      else let cRecip = 1 / c in Inr (lin_solve_loop (nat iter) N b x0 a cRecip x))"

definition diffuse :: "int \<Rightarrow> int \<Rightarrow> field \<Rightarrow> field \<Rightarrow> real \<Rightarrow> real \<Rightarrow> int \<Rightarrow> error + field" where
  "diffuse N b x x0 diff' dt' iter =
     (let a = dt' * diff' * real_of_int (N - 2) * real_of_int (N - 2)
      in lin_solve N b x x0 a (1 + 6 * a) iter)"

subsection \<open>Projection\<close>

text \<open>The two interior loops of \<open>project\<close>; each writes two arrays, so the state is a pair.\<close>

definition project_div_cell ::
  "int \<Rightarrow> field \<Rightarrow> field \<Rightarrow> int \<Rightarrow> int \<Rightarrow> field \<times> field \<Rightarrow> field \<times> field" where
  "project_div_cell N velocX velocY j i dp =
     (case dp of (div', p) \<Rightarrow>
        (wr N div' i j
           ((- 0.5 *
             (rd N velocX (i + 1) j - rd N velocX (i - 1) j +
              rd N velocY i (j + 1) - rd N velocY i (j - 1)))
            / real_of_int N),
         wr N p i j 0))"

definition project_grad_cell ::
  "int \<Rightarrow> field \<Rightarrow> int \<Rightarrow> int \<Rightarrow> field \<times> field \<Rightarrow> field \<times> field" where
  "project_grad_cell N p j i vv =
     (case vv of (velocX, velocY) \<Rightarrow>
        (wr N velocX i j
           (rd N velocX i j - 0.5 * real_of_int N * (rd N p (i + 1) j - rd N p (i - 1) j)),
         wr N velocY i j
           (rd N velocY i j - 0.5 * real_of_int N * (rd N p i (j + 1) - rd N p i (j - 1)))))"

text \<open>The result lists the four arrays in parameter order: \<open>velocX\<close>, \<open>velocY\<close>, \<open>p\<close>, \<open>div\<close>.\<close>

definition project ::
  "int \<Rightarrow> field \<Rightarrow> field \<Rightarrow> field \<Rightarrow> field \<Rightarrow> int \<Rightarrow> error + (field \<times> field \<times> field \<times> field)" where
  "project N velocX velocY p div' iter =
     (case fold (\<lambda>j. fold (project_div_cell N velocX velocY j) [1..N]) [1..N] (div', p) of
        (div1, p1) \<Rightarrow>
          let div2 = set_bnd N 0 div1;
              p2 = set_bnd N 0 p1
          in case lin_solve N 0 p2 div2 1 6 iter of
               Inl e \<Rightarrow> Inl e
             | Inr p3 \<Rightarrow>
                 (case fold (\<lambda>j. fold (project_grad_cell N p3 j) [1..N]) [1..N] (velocX, velocY) of
                    (velocX1, velocY1) \<Rightarrow>
                      Inr (set_bnd N 1 velocX1, set_bnd N 2 velocY1, p3, div2)))"

subsection \<open>Advection\<close>

definition advect_cell ::
  "int \<Rightarrow> field \<Rightarrow> field \<Rightarrow> field \<Rightarrow> real \<Rightarrow> int \<Rightarrow> int \<Rightarrow> field \<Rightarrow> field" where
  "advect_cell N d0 velocX velocY dt0 j i d =
     (let x = real_of_int i - dt0 * rd N velocX i j;
          y = real_of_int j - dt0 * rd N velocY i j;
          x = (if x < 0.5 then 0.5 else x);
          x = (if x > real_of_int N + 0.5 then real_of_int N + 0.5 else x);
          i0 = \<lfloor>x\<rfloor>;
          i1 = i0 + 1;
          y = (if y < 0.5 then 0.5 else y);
          y = (if y > real_of_int N + 0.5 then real_of_int N + 0.5 else y);
          j0 = \<lfloor>y\<rfloor>;
          j1 = j0 + 1;
          s1 = x - real_of_int i0;
          s0 = 1 - s1;
          t1 = y - real_of_int j0;
          t0 = 1 - t1
      in wr N d i j
           (s0 * (t0 * rd N d0 i0 j0 + t1 * rd N d0 i0 j1) +
            s1 * (t0 * rd N d0 i1 j0 + t1 * rd N d0 i1 j1)))"

definition advect ::
  "int \<Rightarrow> int \<Rightarrow> field \<Rightarrow> field \<Rightarrow> field \<Rightarrow> field \<Rightarrow> real \<Rightarrow> field" where
  "advect N b d d0 velocX velocY dt' =
     (let dt0 = dt' * real_of_int (N - 2)
      in set_bnd N b (fold (\<lambda>j. fold (advect_cell N d0 velocX velocY dt0 j) [1..N]) [1..N] d))"

subsection \<open>Simulation step\<close>

text \<open>\<open>density[i] = Math.max(0, density[i] * (1 - fadeRate))\<close> for every index \<open>i\<close>.\<close>

definition fade :: "real \<Rightarrow> field \<Rightarrow> field" where
  "fade fadeRate density' =
     (if fadeRate > 0 then map (\<lambda>d. max 0 (d * (1 - fadeRate))) density' else density')"

definition step :: "solver \<Rightarrow> int \<Rightarrow> real \<Rightarrow> error + solver" where
  "step S iter fadeRate =
     (let N = sizeN S
      in case diffuse N 1 (Vx0 S) (Vx S) (visc S) (dt S) iter of
           Inl e \<Rightarrow> Inl e
         | Inr Vx0_1 \<Rightarrow>
      (case diffuse N 2 (Vy0 S) (Vy S) (visc S) (dt S) iter of
           Inl e \<Rightarrow> Inl e
         | Inr Vy0_1 \<Rightarrow>
      (case project N Vx0_1 Vy0_1 (Vx S) (Vy S) iter of
           Inl e \<Rightarrow> Inl e
         | Inr (Vx0_2, Vy0_2, Vx_1, Vy_1) \<Rightarrow>
      (let Vx_2 = advect N 1 Vx_1 Vx0_2 Vx0_2 Vy0_2 (dt S);
           Vy_2 = advect N 2 Vy_1 Vy0_2 Vx0_2 Vy0_2 (dt S)
       in case project N Vx_2 Vy_2 Vx0_2 Vy0_2 iter of
           Inl e \<Rightarrow> Inl e
         | Inr (Vx_3, Vy_3, Vx0_3, Vy0_3) \<Rightarrow>
      (case diffuse N 0 (s S) (density S) (diff S) (dt S) iter of
           Inl e \<Rightarrow> Inl e
         | Inr s_1 \<Rightarrow>
             Inr (S\<lparr> s := s_1,
                      density := fade fadeRate (advect N 0 (density S) s_1 Vx_3 Vy_3 (dt S)),
                      Vx := Vx_3, Vy := Vy_3, Vx0 := Vx0_3, Vy0 := Vy0_3 \<rparr>))))))"

text \<open>The caller's loop: \<open>k\<close> ticks in a row with nothing injected in between.\<close>

primrec steps :: "nat \<Rightarrow> solver \<Rightarrow> int \<Rightarrow> real \<Rightarrow> error + solver" where
  "steps 0 S iter fadeRate = Inr S"
| "steps (Suc k) S iter fadeRate =
     (case step S iter fadeRate of
        Inl e \<Rightarrow> Inl e
      | Inr S' \<Rightarrow> steps k S' iter fadeRate)"

subsection \<open>Reset (App.tsx)\<close>

text \<open>
  \<open>handleReset\<close> returns at once when there is no solver; otherwise it calls \<open>fill(0)\<close> on
  five arrays. The calls that follow only change what the page displays.
\<close>

definition fill :: "field \<Rightarrow> real \<Rightarrow> field" where
  "fill x v = replicate (length x) v"

definition handleReset :: "solver option \<Rightarrow> solver option" where
  "handleReset solver =
     (case solver of
        None \<Rightarrow> None
      | Some S \<Rightarrow>
          Some (S\<lparr> density := fill (density S) 0,
                   Vx := fill (Vx S) 0,
                   Vy := fill (Vy S) 0,
                   Vx0 := fill (Vx0 S) 0,
                   Vy0 := fill (Vy0 S) 0 \<rparr>))"

subsection \<open>The shape of a constructed solver\<close>

definition wf_field :: "int \<Rightarrow> field \<Rightarrow> bool" where
  "wf_field N x = (0 \<le> N \<and> length x = nat ((N + 2) * (N + 2)))"

definition wf_solver :: "solver \<Rightarrow> bool" where
  "wf_solver S =
     (wf_field (sizeN S) (s S) \<and> wf_field (sizeN S) (density S) \<and>
      wf_field (sizeN S) (Vx S) \<and> wf_field (sizeN S) (Vy S) \<and>
      wf_field (sizeN S) (Vx0 S) \<and> wf_field (sizeN S) (Vy0 S))"

subsection \<open>Predicates on buffers\<close>

text \<open>
  \<open>field_inv N P x\<close>: the buffer \<open>x\<close> has the allocated shape and every cell satisfies \<open>P\<close>.
  The remaining predicates say that \<open>P\<close> is kept by the arithmetic of the boundary handler
  (an average, a negation for the velocity kinds), of the advection (a weighted mean) and of
  the relaxation update.
\<close>

definition zero_field :: "field \<Rightarrow> bool" where
  "zero_field x = list_all (\<lambda>v. v = 0) x"

definition nonneg_field :: "field \<Rightarrow> bool" where
  "nonneg_field x = list_all (\<lambda>v. 0 \<le> v) x"

definition field_inv :: "int \<Rightarrow> (real \<Rightarrow> bool) \<Rightarrow> field \<Rightarrow> bool" where
  "field_inv N P x = (wf_field N x \<and> list_all P x)"

definition avg_closed :: "(real \<Rightarrow> bool) \<Rightarrow> bool" where
  "avg_closed P = (\<forall>u v. P u \<longrightarrow> P v \<longrightarrow> P (0.5 * (u + v)))"

definition neg_closed :: "int \<Rightarrow> (real \<Rightarrow> bool) \<Rightarrow> bool" where
  "neg_closed b P = (b = 1 \<or> b = 2 \<longrightarrow> (\<forall>v. P v \<longrightarrow> P (- v)))"

definition convex_closed :: "(real \<Rightarrow> bool) \<Rightarrow> bool" where
  "convex_closed P = (\<forall>t u v. 0 \<le> t \<longrightarrow> t \<le> 1 \<longrightarrow> P u \<longrightarrow> P v \<longrightarrow> P ((1 - t) * u + t * v))"

definition relax_closed :: "(real \<Rightarrow> bool) \<Rightarrow> (real \<Rightarrow> bool) \<Rightarrow> real \<Rightarrow> real \<Rightarrow> bool" where
  "relax_closed Q P a cRecip =
     (\<forall>u n1 n2 n3 n4. Q u \<longrightarrow> P n1 \<longrightarrow> P n2 \<longrightarrow> P n3 \<longrightarrow> P n4 \<longrightarrow>
        P ((u + a * (n1 + n2 + n3 + n4)) * cRecip))"

subsection \<open>Auxiliary notions and the statements of the specification\<close>

text \<open>
  \<open>interior_map N h x\<close> is the shape of an interior loop whose cell update reads only the cell
  it writes: every interior cell \<open>(i, j)\<close> becomes \<open>h i j\<close> of its old value. \<open>mirror\<close> is the
  conditional negation of the boundary handler. Both only serve the proofs.
\<close>

definition interior_map :: "int \<Rightarrow> (int \<Rightarrow> int \<Rightarrow> real \<Rightarrow> real) \<Rightarrow> field \<Rightarrow> field" where
  "interior_map N h x =
     fold (\<lambda>j. fold (\<lambda>i x. wr N x i j (h i j (rd N x i j))) [1..N]) [1..N] x"

definition mirror :: "bool \<Rightarrow> real \<Rightarrow> real" where
  "mirror c v = (if c then - v else v)"

text \<open>
  The boundary policy as the specification words it: an edge cell holds the value of its
  single interior neighbour, negated when the kind of the field matches the normal of the
  edge (kind \<open>1\<close> on the left and right columns, kind \<open>2\<close> on the top and bottom rows); a
  corner holds the average of its two neighbouring edge cells.
\<close>

definition boundary_policy :: "int \<Rightarrow> int \<Rightarrow> field \<Rightarrow> bool" where
  "boundary_policy N b x =
     ((\<forall>i\<in>{1..N}. rd N x i 0 = (if b = 2 then - rd N x i 1 else rd N x i 1)
                 \<and> rd N x i (N + 1) = (if b = 2 then - rd N x i N else rd N x i N))
    \<and> (\<forall>j\<in>{1..N}. rd N x 0 j = (if b = 1 then - rd N x 1 j else rd N x 1 j)
                 \<and> rd N x (N + 1) j = (if b = 1 then - rd N x N j else rd N x N j))
    \<and> rd N x 0 0 = 0.5 * (rd N x 1 0 + rd N x 0 1)
    \<and> rd N x 0 (N + 1) = 0.5 * (rd N x 1 (N + 1) + rd N x 0 N)
    \<and> rd N x (N + 1) 0 = 0.5 * (rd N x N 0 + rd N x (N + 1) 1)
    \<and> rd N x (N + 1) (N + 1) = 0.5 * (rd N x N (N + 1) + rd N x (N + 1) N))"

text \<open>
  The discrete divergence and the two components of the pressure gradient, as the
  specification of the projection writes them.
\<close>

definition spec_divergence :: "int \<Rightarrow> field \<Rightarrow> field \<Rightarrow> int \<Rightarrow> int \<Rightarrow> real" where
  "spec_divergence N vx vy i j =
     - 0.5 * ((rd N vx (i + 1) j - rd N vx (i - 1) j) + (rd N vy i (j + 1) - rd N vy i (j - 1)))
       / real_of_int N"

definition spec_gradient_x :: "int \<Rightarrow> field \<Rightarrow> int \<Rightarrow> int \<Rightarrow> real" where
  "spec_gradient_x N p i j = 0.5 * real_of_int N * (rd N p (i + 1) j - rd N p (i - 1) j)"

definition spec_gradient_y :: "int \<Rightarrow> field \<Rightarrow> int \<Rightarrow> int \<Rightarrow> real" where
  "spec_gradient_y N p i j = 0.5 * real_of_int N * (rd N p i (j + 1) - rd N p i (j - 1))"

text \<open>
  Every cell lies in \<open>[lo, hi]\<close>; and the factor by which one tick with fade rate \<open>r\<close> and
  diffusion coefficient \<open>a\<close> shrinks a common bound of \<open>density\<close> and \<open>s\<close>.
\<close>

definition bounded_field :: "real \<Rightarrow> real \<Rightarrow> field \<Rightarrow> bool" where
  "bounded_field lo hi x = list_all (\<lambda>v. lo \<le> v \<and> v \<le> hi) x"

definition decay_rate :: "real \<Rightarrow> real \<Rightarrow> real" where
  "decay_rate r a = max (1 - r) ((1 - r + 4 * a) / (1 + 6 * a))"

text \<open>
  The magnitudes under which no number of a tick leaves the finite doubles and no stored cell
  leaves the finite single-precision numbers: a grid that the constructor can allocate, and
  time step, viscosity, diffusion rate and velocity cells of at most \<open>2\<^bsup>100\<^esup>\<close> in absolute
  value. (A tick multiplies the largest velocity by at most four, and the coefficient
  \<open>a = dt * rate * (N - 2)\<^sup>2\<close> of the relaxation stays below \<open>2\<^bsup>252\<^esup>\<close>.)
\<close>

definition finite_range :: "solver \<Rightarrow> bool" where
  "finite_range S =
     (sizeN S < 2 ^ 26 \<and> \<bar>dt S\<bar> \<le> 2 ^ 100 \<and> \<bar>visc S\<bar> \<le> 2 ^ 100 \<and> \<bar>diff S\<bar> \<le> 2 ^ 100
      \<and> bounded_field (- (2 ^ 100)) (2 ^ 100) (Vx S)
      \<and> bounded_field (- (2 ^ 100)) (2 ^ 100) (Vy S)
      \<and> bounded_field (- (2 ^ 100)) (2 ^ 100) (Vx0 S)
      \<and> bounded_field (- (2 ^ 100)) (2 ^ 100) (Vy0 S))"

text \<open>
  The relaxation solver as the specification words it. A sweep visits the interior cells and
  replaces each in place by
  \<open>(x0[i,j] + a * (x[i+1,j] + x[i-1,j] + x[i,j+1] + x[i,j-1])) / c\<close>, so that a cell visited
  before contributes its new value (Gauss-Seidel); the cells are visited row by row. After
  each sweep the boundary handler is applied, and the number of sweeps is fixed.
  \<open>spec_boundary_handler\<close> is the boundary handler as the specification words it: an interior
  cell is kept, an edge cell takes the value of its interior neighbour, negated when the kind
  of the field matches the normal of the edge, and a corner the average of its two
  neighbouring edge cells.
\<close>

definition spec_edge :: "int \<Rightarrow> int \<Rightarrow> field \<Rightarrow> int \<Rightarrow> int \<Rightarrow> real" where
  "spec_edge N b x i j =
     (if j = 0 then (if b = 2 then - rd N x i 1 else rd N x i 1)
      else if j = N + 1 then (if b = 2 then - rd N x i N else rd N x i N)
      else if i = 0 then (if b = 1 then - rd N x 1 j else rd N x 1 j)
      else (if b = 1 then - rd N x N j else rd N x N j))"

definition spec_boundary_cell :: "int \<Rightarrow> int \<Rightarrow> field \<Rightarrow> int \<Rightarrow> int \<Rightarrow> real" where
  "spec_boundary_cell N b x i j =
     (if 1 \<le> i \<and> i \<le> N \<and> 1 \<le> j \<and> j \<le> N then rd N x i j
      else if (1 \<le> i \<and> i \<le> N) \<or> (1 \<le> j \<and> j \<le> N) then spec_edge N b x i j
      else 0.5 * (spec_edge N b x (if i = 0 then 1 else N) j
                  + spec_edge N b x i (if j = 0 then 1 else N)))"

definition spec_boundary_handler :: "int \<Rightarrow> int \<Rightarrow> field \<Rightarrow> field" where
  "spec_boundary_handler N b x =
     map (\<lambda>k. spec_boundary_cell N b x (int k mod (N + 2)) (int k div (N + 2))) [0..<length x]"

definition interior_cells :: "int \<Rightarrow> (int \<times> int) list" where
  "interior_cells N = concat (map (\<lambda>j. map (\<lambda>i. (i, j)) [1..N]) [1..N])"

definition spec_relax_cell :: "int \<Rightarrow> real \<Rightarrow> real \<Rightarrow> field \<Rightarrow> int \<times> int \<Rightarrow> field \<Rightarrow> field" where
  "spec_relax_cell N a c x0 cell x =
     (case cell of (i, j) \<Rightarrow>
        wr N x i j
          ((rd N x0 i j
            + a * (rd N x (i + 1) j + rd N x (i - 1) j + rd N x i (j + 1) + rd N x i (j - 1)))
           / c))"

primrec spec_relaxation ::
  "nat \<Rightarrow> int \<Rightarrow> int \<Rightarrow> real \<Rightarrow> real \<Rightarrow> field \<Rightarrow> field \<Rightarrow> field" where
  "spec_relaxation 0 N b a c x0 x = x"
| "spec_relaxation (Suc k) N b a c x0 x =
     spec_relaxation k N b a c x0
       (spec_boundary_handler N b (fold (spec_relax_cell N a c x0) (interior_cells N) x))"

section \<open>Properties\<close>

subsection \<open>Rounding\<close>

lemma round_even_int: "round_even (real_of_int k) = k"
  by (simp add: round_even_def)

lemma round_even_nonneg: "0 \<le> v \<Longrightarrow> 0 \<le> round_even v"
  by (simp add: round_even_def Let_def)

lemma round_to_nonneg: "0 \<le> v \<Longrightarrow> 0 \<le> round_to p emin v"
  by (simp add: round_to_def Let_def round_even_nonneg)

lemma round_to_eval:
  assumes "2 powr real_of_int e \<le> \<bar>v\<bar>" "\<bar>v\<bar> < 2 powr real_of_int (e + 1)" "emin \<le> e"
  shows "round_to p emin v
       = 2 powr real_of_int (e - (int p - 1))
         * real_of_int (round_even (v / 2 powr real_of_int (e - (int p - 1))))"
proof -
  have v: "v \<noteq> 0" using assms(1) by auto
  have "0 < \<bar>v\<bar>" using v by simp
  then have "\<lfloor>log 2 \<bar>v\<bar>\<rfloor> = e"
    using assms(1,2) by (simp add: floor_log_eq_powr_iff)
  then show ?thesis using v assms(3) by (simp add: round_to_def Let_def max_def)
qed

lemma round_to_exact:
  assumes "2 powr real_of_int e \<le> \<bar>v\<bar>" "\<bar>v\<bar> < 2 powr real_of_int (e + 1)" "emin \<le> e"
    and "v / 2 powr real_of_int (e - (int p - 1)) = real_of_int m"
  shows "round_to p emin v = v"
proof -
  have "round_to p emin v = 2 powr real_of_int (e - (int p - 1)) * real_of_int m"
    unfolding round_to_eval [OF assms(1-3)] assms(4) by (simp add: round_even_int)
  also have "\<dots> = v" using assms(4) by (simp add: field_simps)
  finally show ?thesis .
qed

text \<open>
  Rounding to the nearest number moves a value by at most half a unit in the last place: a
  stored sum differs from the exact one by a relative error of at most \<open>2\<^bsup>-23\<^esup>\<close>, or by
  \<open>2\<^bsup>-149\<^esup>\<close> where the result is subnormal.
\<close>

lemma round_even_error: "\<bar>real_of_int (round_even y) - y\<bar> \<le> 1/2"
proof -
  have "0 \<le> y - real_of_int \<lfloor>y\<rfloor>" "y - real_of_int \<lfloor>y\<rfloor> < 1" by linarith+
  then show ?thesis by (auto simp: round_even_def Let_def)
qed

lemma round_to_error:
  "\<bar>round_to p emin v - v\<bar> \<le> \<bar>v\<bar> / 2 ^ p + 2 powr (real_of_int emin - real p)"
proof (cases "v = 0")
  case True
  then show ?thesis by (simp add: round_to_def)
next
  case False
  define e where "e = max \<lfloor>log 2 \<bar>v\<bar>\<rfloor> emin"
  define q where "q = 2 powr real_of_int (e - (int p - 1))"
  have q: "0 < q" by (simp add: q_def)
  have r: "round_to p emin v = q * real_of_int (round_even (v / q))"
    using False by (simp add: round_to_def Let_def e_def q_def)
  have "round_to p emin v - v = q * (real_of_int (round_even (v / q)) - v / q)"
    using q by (simp add: r right_diff_distrib)
  then have "\<bar>round_to p emin v - v\<bar> = q * \<bar>real_of_int (round_even (v / q)) - v / q\<bar>"
    using q by (simp add: abs_mult)
  also have "\<dots> \<le> q * (1/2)"
    using q round_even_error [of "v / q"] by (intro mult_left_mono) simp_all
  also have "\<dots> = 2 powr (real_of_int e - real p)"
  proof -
    have "q = 2 powr (real_of_int e - real p + 1)" by (simp add: q_def algebra_simps)
    also have "\<dots> = 2 powr (real_of_int e - real p) * 2" by (simp add: powr_add)
    finally show ?thesis by simp
  qed
  finally have b: "\<bar>round_to p emin v - v\<bar> \<le> 2 powr (real_of_int e - real p)" .
  have "2 powr (real_of_int e - real p) \<le> \<bar>v\<bar> / 2 ^ p + 2 powr (real_of_int emin - real p)"
  proof (cases "emin \<le> \<lfloor>log 2 \<bar>v\<bar>\<rfloor>")
    case True
    then have e: "e = \<lfloor>log 2 \<bar>v\<bar>\<rfloor>" by (simp add: e_def)
    have "real_of_int e \<le> log 2 \<bar>v\<bar>" by (simp add: e)
    then have "2 powr real_of_int e \<le> 2 powr log 2 \<bar>v\<bar>" by simp
    then have "2 powr real_of_int e \<le> \<bar>v\<bar>" using False by simp
    moreover have "2 powr (real_of_int e - real p) = 2 powr real_of_int e / 2 ^ p"
      by (simp add: powr_diff powr_realpow)
    ultimately have "2 powr (real_of_int e - real p) \<le> \<bar>v\<bar> / 2 ^ p"
      by (simp add: divide_right_mono)
    moreover have "0 \<le> 2 powr (real_of_int emin - real p)" by simp
    ultimately show ?thesis by linarith
  next
    case False
    then have "e = emin" by (simp add: e_def)
    moreover have "0 \<le> \<bar>v\<bar> / 2 ^ p" by simp
    ultimately show ?thesis by simp
  qed
  with b show ?thesis by linarith
qed

lemma float32_error:
  "\<bar>to_float32 (to_double v) - v\<bar> \<le> \<bar>v\<bar> / 2 ^ 23 + 1 / 2 ^ 149"
proof -
  define w where "w = to_double v"
  define dd where "dd = (2::real) powr (- 1075)"
  define ee where "ee = (2::real) powr (- 150)"
  have d: "\<bar>w - v\<bar> \<le> \<bar>v\<bar> / 2 ^ 53 + dd"
    using round_to_error [of 53 "- 1022" v] by (simp add: w_def to_double_def dd_def)
  have f: "\<bar>to_float32 w - w\<bar> \<le> \<bar>w\<bar> / 2 ^ 24 + ee"
    using round_to_error [of 24 "- 126" w] by (simp add: to_float32_def ee_def)
  have de: "dd \<le> ee / 4"
  proof -
    have "dd \<le> (2::real) powr (- 152)" unfolding dd_def by (rule powr_mono) simp_all
    also have "\<dots> = ee / 4"
    proof -
      have "(2::real) powr (- 152) = 2 powr (- 150 - 2)" by simp
      also have "\<dots> = ee / 2 powr 2" unfolding ee_def by (rule powr_diff)
      finally show ?thesis by simp
    qed
    finally show ?thesis .
  qed
  have ee: "ee = 1 / 2 ^ 150 " "0 \<le> ee" "0 \<le> dd"
    by (simp_all add: ee_def dd_def powr_neg_numeral)
  have w: "\<bar>w\<bar> \<le> \<bar>v\<bar> + (\<bar>v\<bar> / 2 ^ 53 + dd)" using d by linarith
  have "\<bar>w\<bar> / 2 ^ 24 \<le> (\<bar>v\<bar> + (\<bar>v\<bar> / 2 ^ 53 + dd)) / 2 ^ 24"
    using w by (rule divide_right_mono) simp
  then have "\<bar>to_float32 w - v\<bar>
      \<le> (\<bar>v\<bar> + (\<bar>v\<bar> / 2 ^ 53 + dd)) / 2 ^ 24 + ee + (\<bar>v\<bar> / 2 ^ 53 + dd)"
    using d f by linarith
  also have "\<dots> \<le> \<bar>v\<bar> / 2 ^ 23 + 2 * ee"
  proof -
    have "0 \<le> \<bar>v\<bar>" by simp
    then show ?thesis using de ee(2,3) by (simp add: field_simps)
  qed
  also have "\<dots> = \<bar>v\<bar> / 2 ^ 23 + 1 / 2 ^ 149" by (simp add: ee(1))
  finally show ?thesis by (simp add: w_def)
qed

lemma float32_zero: "to_float32 (to_double 0) = 0"
  by (simp add: to_float32_def to_double_def round_to_def)

text \<open>The amounts \<open>100\<close> and \<open>150\<close> are single-precision numbers: storing them rounds nothing.\<close>

lemma float32_100: "to_float32 (to_double 100) = 100"
proof -
  have d: "to_double 100 = 100"
    unfolding to_double_def
    by (rule round_to_exact [where e = 6 and m = "100 * 2 ^ 46"]) (simp_all add: powr_neg_numeral)
  have "to_float32 100 = 100"
    unfolding to_float32_def
    by (rule round_to_exact [where e = 6 and m = "100 * 2 ^ 17"]) (simp_all add: powr_neg_numeral)
  with d show ?thesis by simp
qed

lemma float32_150: "to_float32 (to_double 150) = 150"
proof -
  have d: "to_double 150 = 150"
    unfolding to_double_def
    by (rule round_to_exact [where e = 7 and m = "150 * 2 ^ 45"]) (simp_all add: powr_neg_numeral)
  have "to_float32 150 = 150"
    unfolding to_float32_def
    by (rule round_to_exact [where e = 7 and m = "150 * 2 ^ 16"]) (simp_all add: powr_neg_numeral)
  with d show ?thesis by simp
qed

text \<open>
  The amount \<open>1/10\<close> is neither a double nor a single-precision number: the double nearest to
  it is stored as \<open>13421773 / 2\<^bsup>27\<^esup> = 0.100000001490116119384765625\<close>.
\<close>

lemma float32_tenth: "to_float32 (to_double (1/10)) = 13421773 / 134217728"
proof -
  have d: "to_double (1/10) = 3602879701896397 / 36028797018963968"
    unfolding to_double_def
    by (subst round_to_eval [where e = "- 4"])
       (simp_all add: powr_neg_numeral round_even_def Let_def)
  have f: "to_float32 (3602879701896397 / 36028797018963968) = 13421773 / 134217728"
    unfolding to_float32_def
    by (subst round_to_eval [where e = "- 4"])
       (simp_all add: powr_neg_numeral round_even_def Let_def)
  show ?thesis by (simp only: d f)
qed

text \<open>
  Single precision has 24 significant bits: \<open>2\<^bsup>24\<^esup> = 16777216\<close> is a single-precision number,
  and \<open>16777217\<close>, halfway between two of them, is stored as \<open>16777216\<close>.
\<close>

lemma float32_16777216: "to_float32 (to_double 16777216) = 16777216"
proof -
  have d: "to_double 16777216 = 16777216"
    unfolding to_double_def
    by (rule round_to_exact [where e = 24 and m = "16777216 * 2 ^ 28"]) (simp_all add: powr_neg_numeral)
  have "to_float32 16777216 = 16777216"
    unfolding to_float32_def
    by (rule round_to_exact [where e = 24 and m = "8388608"]) simp_all
  with d show ?thesis by simp
qed

lemma float32_16777217: "to_float32 (to_double 16777217) = 16777216"
proof -
  have d: "to_double 16777217 = 16777217"
    unfolding to_double_def
    by (rule round_to_exact [where e = 24 and m = "16777217 * 2 ^ 28"]) (simp_all add: powr_neg_numeral)
  have "to_float32 16777217 = 16777216"
    unfolding to_float32_def
    by (subst round_to_eval [where e = 24]) (simp_all add: round_even_def Let_def)
  with d show ?thesis by simp
qed

subsection \<open>The coordinate map\<close>

lemma IX_nonneg: "0 \<le> IX N x y"
proof (cases "0 \<le> N + 2")
  case True
  then show ?thesis by (simp add: IX_def Let_def)
next
  case False
  then have "max 0 (min y (N + 1)) = 0" by simp
  then show ?thesis by (simp add: IX_def Let_def)
qed

lemma IX_upper:
  assumes "0 \<le> N"
  shows "IX N x y < (N + 2) * (N + 2)"
proof -
  define x' where "x' = max 0 (min x (N + 1))"
  define y' where "y' = max 0 (min y (N + 1))"
  have x': "x' \<le> N + 1" and y': "y' \<le> N + 1"
    using assms by (simp_all add: x'_def y'_def)
  have "(N + 2) * y' \<le> (N + 2) * (N + 1)"
    using y' assms by (intro mult_left_mono) simp_all
  then have "x' + (N + 2) * y' < (N + 2) * (N + 2)"
    using x' by (simp add: algebra_simps)
  then show ?thesis by (simp add: IX_def Let_def x'_def y'_def)
qed

lemma IX_in_field: "wf_field N x \<Longrightarrow> nat (IX N i j) < length x"
  using IX_upper [of N i j] IX_nonneg [of N i j] by (simp add: wf_field_def)

text \<open>
  Claim C3. For a grid size \<open>0 \<le> N\<close> and all integers \<open>x\<close>, \<open>y\<close>, \<open>IX\<close> clamps each
  coordinate into \<open>[0, N + 1]\<close>, returns the clamped \<open>x\<close> plus \<open>N + 2\<close> times the clamped
  \<open>y\<close>, and this offset lies in \<open>[0, (N + 2)\<^sup>2 - 1]\<close>, below the length of every buffer the
  constructor allocates. The constructor returns no solver only when the engine does not
  allocate \<open>(N + 2)\<^sup>2\<close> cells.
\<close>

theorem IX_total_in_bounds:
  assumes "0 \<le> N"
  shows "IX N x y = max 0 (min x (N + 1)) + (N + 2) * max 0 (min y (N + 1))
       \<and> 0 \<le> max 0 (min x (N + 1)) \<and> max 0 (min x (N + 1)) \<le> N + 1
       \<and> 0 \<le> max 0 (min y (N + 1)) \<and> max 0 (min y (N + 1)) \<le> N + 1
       \<and> 0 \<le> IX N x y \<and> IX N x y \<le> (N + 2)\<^sup>2 - 1
       \<and> (case FluidSolver maxLength N diffusion viscosity dt' of
            Inl e \<Rightarrow> e = RangeError \<and> maxLength < nat ((N + 2) * (N + 2))
          | Inr S \<Rightarrow>
              nat (IX N x y) < length (s S) \<and> nat (IX N x y) < length (density S)
            \<and> nat (IX N x y) < length (Vx S) \<and> nat (IX N x y) < length (Vy S)
            \<and> nat (IX N x y) < length (Vx0 S) \<and> nat (IX N x y) < length (Vy0 S))"
proof -
  have up: "IX N x y < (N + 2) * (N + 2)" by (rule IX_upper [OF assms(1)])
  have lo: "0 \<le> IX N x y" by (rule IX_nonneg)
  have idx: "nat (IX N x y) < nat ((N + 2) * (N + 2))" using up lo by simp
  have alloc: "(case FluidSolver maxLength N diffusion viscosity dt' of
            Inl e \<Rightarrow> e = RangeError \<and> maxLength < nat ((N + 2) * (N + 2))
          | Inr S \<Rightarrow>
              nat (IX N x y) < length (s S) \<and> nat (IX N x y) < length (density S)
            \<and> nat (IX N x y) < length (Vx S) \<and> nat (IX N x y) < length (Vy S)
            \<and> nat (IX N x y) < length (Vx0 S) \<and> nat (IX N x y) < length (Vy0 S))"
    using idx by (simp add: FluidSolver_def Let_def)
  have sq: "IX N x y \<le> (N + 2)\<^sup>2 - 1" using up by (simp add: power2_eq_square)
  have eq: "IX N x y = max 0 (min x (N + 1)) + (N + 2) * max 0 (min y (N + 1))"
    by (simp add: IX_def Let_def)
  have cx: "0 \<le> max 0 (min x (N + 1)) \<and> max 0 (min x (N + 1)) \<le> N + 1"
    using assms(1) by simp
  have cy: "0 \<le> max 0 (min y (N + 1)) \<and> max 0 (min y (N + 1)) \<le> N + 1"
    using assms(1) by simp
  from eq cx cy lo sq alloc show ?thesis by blast
qed

theorem IX_total_in_bounds_witness:
  "(0::int) \<le> 4 \<and> IX 4 (- 7) 1000 = 0 + 6 * 5 \<and> 0 \<le> IX 4 (- 7) 1000
   \<and> IX 4 (- 7) 1000 \<le> 6\<^sup>2 - 1
   \<and> nat (IX 4 (- 7) 1000) < length (density (projr (FluidSolver 36 4 0 0 (1/10))))"
  using IX_total_in_bounds [where N = 4 and x = "- 7" and y = 1000 and maxLength = 36
      and diffusion = 0 and viscosity = 0 and dt' = "1/10"]
  by (simp add: FluidSolver_def Let_def)

text \<open>
  The grid size \<open>- 2\<close> is the one size where the offset is not below the allocated length:
  the constructor allocates no cell at all.
\<close>

lemma IX_degenerate:
  "IX (- 2) x y = 0 \<and> length (density (new_solver (- 2) d v t)) = 0"
  by (simp add: IX_def Let_def new_solver_def)

subsection \<open>Cell-wise invariants of the stages\<close>

lemma wf_field_wr: "wf_field N (wr N x i j v) = wf_field N x"
  by (simp add: wf_field_def wr_def)

lemma cells_wr: "list_all P x \<Longrightarrow> P v \<Longrightarrow> list_all P (wr N x i j v)"
  unfolding wr_def list_all_iff using set_update_subset_insert [of x "nat (IX N i j)" v] by auto

lemma cells_rd: "wf_field N x \<Longrightarrow> list_all P x \<Longrightarrow> P (rd N x i j)"
  unfolding rd_def list_all_iff using IX_in_field [of N x i j] by simp

lemma fold_inv:
  assumes "I x" and "\<And>i y. I y \<Longrightarrow> I (f i y)"
  shows "I (fold f is x)"
  using assms(1) by (induction "is" arbitrary: x) (simp_all add: assms(2))

lemma inv_wr: "field_inv N P x \<Longrightarrow> P v \<Longrightarrow> field_inv N P (wr N x i j v)"
  by (simp add: field_inv_def wf_field_wr cells_wr)

lemma inv_rd: "field_inv N P x \<Longrightarrow> P (rd N x i j)"
  by (simp add: field_inv_def cells_rd)

lemma convexD:
  "convex_closed P \<Longrightarrow> 0 \<le> t \<Longrightarrow> t \<le> 1 \<Longrightarrow> P u \<Longrightarrow> P v \<Longrightarrow> P ((1 - t) * u + t * v)"
  by (simp add: convex_closed_def)

lemma convex_avg: "convex_closed P \<Longrightarrow> avg_closed P"
proof -
  assume c: "convex_closed P"
  have "P (0.5 * (u + v))" if "P u" "P v" for u v
  proof -
    have e: "0.5 * (u + v) = (1 - 1/2) * u + (1/2) * v" by (simp add: field_simps)
    have "P ((1 - 1/2) * u + (1/2) * v)" by (rule convexD [OF c]) (simp_all add: that)
    then show ?thesis by (simp only: e)
  qed
  then show ?thesis by (simp add: avg_closed_def)
qed

lemma set_bnd_col_inv:
  assumes "field_inv N P x" "neg_closed b P"
  shows "field_inv N P (set_bnd_col N b i x)"
proof -
  have n: "\<And>y k l. field_inv N P y \<Longrightarrow> P (if b = 2 then - rd N y k l else rd N y k l)"
    using assms(2) by (auto simp: neg_closed_def inv_rd)
  show ?thesis unfolding set_bnd_col_def Let_def
    by (intro inv_wr n assms(1))
qed

lemma set_bnd_row_inv:
  assumes "field_inv N P x" "neg_closed b P"
  shows "field_inv N P (set_bnd_row N b j x)"
proof -
  have n: "\<And>y k l. field_inv N P y \<Longrightarrow> P (if b = 1 then - rd N y k l else rd N y k l)"
    using assms(2) by (auto simp: neg_closed_def inv_rd)
  show ?thesis unfolding set_bnd_row_def Let_def
    by (intro inv_wr n assms(1))
qed

lemma set_bnd_corners_inv:
  assumes "field_inv N P x" "avg_closed P"
  shows "field_inv N P (set_bnd_corners N x)"
proof -
  have n: "\<And>y k l k' l'. field_inv N P y \<Longrightarrow> P (0.5 * (rd N y k l + rd N y k' l'))"
    using assms(2) by (simp add: avg_closed_def inv_rd)
  show ?thesis unfolding set_bnd_corners_def Let_def
    by (intro inv_wr n assms(1))
qed

lemma set_bnd_inv:
  assumes "field_inv N P x" "avg_closed P" "neg_closed b P"
  shows "field_inv N P (set_bnd N b x)"
  unfolding set_bnd_def
  by (intro set_bnd_corners_inv fold_inv [where I = "field_inv N P"] set_bnd_row_inv set_bnd_col_inv assms)

lemma lin_solve_cell_inv:
  assumes "field_inv N Q x0" "field_inv N P x" "relax_closed Q P a cRecip"
  shows "field_inv N P (lin_solve_cell N x0 a cRecip j i x)"
  unfolding lin_solve_cell_def
  using assms(3) inv_rd [OF assms(1)] inv_rd [OF assms(2)]
  by (intro inv_wr assms(2)) (simp add: relax_closed_def)

lemma lin_solve_sweep_inv:
  assumes "field_inv N Q x0" "field_inv N P x" "relax_closed Q P a cRecip"
    "avg_closed P" "neg_closed b P"
  shows "field_inv N P (lin_solve_sweep N b x0 a cRecip x)"
  unfolding lin_solve_sweep_def
  by (intro set_bnd_inv fold_inv [where I = "field_inv N P"]
        lin_solve_cell_inv [where Q = Q] assms)

lemma lin_solve_loop_inv:
  assumes "field_inv N Q x0" "field_inv N P x" "relax_closed Q P a cRecip"
    "avg_closed P" "neg_closed b P"
  shows "field_inv N P (lin_solve_loop k N b x0 a cRecip x)"
  using assms(2)
  by (induction k arbitrary: x) (simp_all add: lin_solve_sweep_inv [where Q = Q] assms)

lemma lin_solve_inv:
  assumes "c \<noteq> 0" "field_inv N Q x0" "field_inv N P x" "relax_closed Q P a (1 / c)"
    "avg_closed P" "neg_closed b P"
  shows "\<exists>y. lin_solve N b x x0 a c iter = Inr y \<and> field_inv N P y"
  using assms by (simp add: lin_solve_def lin_solve_loop_inv [where Q = Q])

lemma frac_bounds: "0 \<le> (x::real) - real_of_int \<lfloor>x\<rfloor> \<and> x - real_of_int \<lfloor>x\<rfloor> \<le> 1"
  by linarith

lemma advect_cell_inv:
  assumes "field_inv N P d0" "field_inv N P d" "convex_closed P"
  shows "field_inv N P (advect_cell N d0 velocX velocY dt0 j i d)"
  unfolding advect_cell_def Let_def
  by (intro inv_wr assms(2) convexD [OF assms(3)] inv_rd [OF assms(1)]) (simp_all add: frac_bounds)

lemma advect_inv:
  assumes "field_inv N P d0" "field_inv N P d" "convex_closed P" "neg_closed b P"
  shows "field_inv N P (advect N b d d0 velocX velocY dt')"
  unfolding advect_def Let_def
  by (intro set_bnd_inv fold_inv [where I = "field_inv N P"] advect_cell_inv assms convex_avg)

lemma fold2_inv:
  assumes "I x" and "\<And>j i y. I y \<Longrightarrow> I (f j i y)"
  shows "I (fold (\<lambda>j. fold (f j) is) js x)"
  by (intro fold_inv [where I = I] assms)

lemma zero_convex: "convex_closed (\<lambda>v. v = 0)"
  by (simp add: convex_closed_def)

lemma zero_neg: "neg_closed b (\<lambda>v. v = 0)"
  by (simp add: neg_closed_def)

lemma zero_relax: "relax_closed (\<lambda>v. v = 0) (\<lambda>v. v = 0) a cRecip"
  by (simp add: relax_closed_def)

lemma zero_field_unique:
  "field_inv N (\<lambda>v. v = 0) x \<longleftrightarrow> 0 \<le> N \<and> x = replicate (nat ((N + 2) * (N + 2))) 0"
proof
  assume h: "field_inv N (\<lambda>v. v = 0) x"
  have "x = replicate (length x) 0"
  proof (rule replicate_eqI)
    show "length x = length x" by simp
  next
    fix y assume "y \<in> set x"
    with h show "y = 0" by (auto simp: field_inv_def list_all_iff)
  qed
  with h show "0 \<le> N \<and> x = replicate (nat ((N + 2) * (N + 2))) 0"
    by (simp add: field_inv_def wf_field_def)
next
  assume "0 \<le> N \<and> x = replicate (nat ((N + 2) * (N + 2))) 0"
  then show "field_inv N (\<lambda>v. v = 0) x"
    by (simp add: field_inv_def wf_field_def list_all_iff)
qed

lemma zero_fields_equal:
  "field_inv N (\<lambda>v. v = 0) x \<Longrightarrow> field_inv N (\<lambda>v. v = 0) y \<Longrightarrow> x = y"
  by (simp add: zero_field_unique)

lemma diffuse_inv:
  assumes "1 + 6 * (dt' * diff' * real_of_int (N - 2) * real_of_int (N - 2)) \<noteq> 0"
    "field_inv N Q x0" "field_inv N P x"
    "relax_closed Q P (dt' * diff' * real_of_int (N - 2) * real_of_int (N - 2))
       (1 / (1 + 6 * (dt' * diff' * real_of_int (N - 2) * real_of_int (N - 2))))"
    "avg_closed P" "neg_closed b P"
  shows "\<exists>y. diffuse N b x x0 diff' dt' iter = Inr y \<and> field_inv N P y"
  unfolding diffuse_def Let_def by (rule lin_solve_inv [where Q = Q]) (rule assms)+

lemma diffuse_zero:
  assumes "1 + 6 * (dt' * diff' * real_of_int (N - 2) * real_of_int (N - 2)) \<noteq> 0"
    "field_inv N (\<lambda>v. v = 0) x0" "field_inv N (\<lambda>v. v = 0) x"
  shows "diffuse N b x x0 diff' dt' iter = Inr x"
proof -
  obtain y where y: "diffuse N b x x0 diff' dt' iter = Inr y" "field_inv N (\<lambda>v. v = 0) y"
    using diffuse_inv [OF assms(1) assms(2) assms(3) zero_relax convex_avg [OF zero_convex] zero_neg]
    by blast
  with assms(3) show ?thesis by (simp add: zero_fields_equal [of N x y])
qed

lemma advect_zero:
  assumes "field_inv N (\<lambda>v. v = 0) d0" "field_inv N (\<lambda>v. v = 0) d"
  shows "advect N b d d0 velocX velocY dt' = d"
  by (rule zero_fields_equal [OF advect_inv [OF assms zero_convex zero_neg] assms(2)])

lemma project_div_cell_zero:
  assumes "field_inv N (\<lambda>v. v = 0) velocX" "field_inv N (\<lambda>v. v = 0) velocY"
    "field_inv N (\<lambda>v. v = 0) (fst dp) \<and> field_inv N (\<lambda>v. v = 0) (snd dp)"
  shows "field_inv N (\<lambda>v. v = 0) (fst (project_div_cell N velocX velocY j i dp))
       \<and> field_inv N (\<lambda>v. v = 0) (snd (project_div_cell N velocX velocY j i dp))"
  using assms(3) inv_rd [OF assms(1)] inv_rd [OF assms(2)]
  by (cases dp) (simp add: project_div_cell_def inv_wr)

lemma project_grad_cell_zero:
  assumes "field_inv N (\<lambda>v. v = 0) p"
    "field_inv N (\<lambda>v. v = 0) (fst vv) \<and> field_inv N (\<lambda>v. v = 0) (snd vv)"
  shows "field_inv N (\<lambda>v. v = 0) (fst (project_grad_cell N p j i vv))
       \<and> field_inv N (\<lambda>v. v = 0) (snd (project_grad_cell N p j i vv))"
proof (cases vv)
  case (Pair a b)
  with assms(2) have ab: "field_inv N (\<lambda>v. v = 0) a" "field_inv N (\<lambda>v. v = 0) b" by simp_all
  have "rd N a i j = 0" "rd N b i j = 0" using inv_rd [OF ab(1)] inv_rd [OF ab(2)] by simp_all
  then show ?thesis
    using inv_rd [OF assms(1)] ab by (simp add: Pair project_grad_cell_def inv_wr)
qed

lemma project_zero:
  assumes "field_inv N (\<lambda>v. v = 0) velocX" "field_inv N (\<lambda>v. v = 0) velocY"
    "field_inv N (\<lambda>v. v = 0) p" "field_inv N (\<lambda>v. v = 0) div'"
  shows "project N velocX velocY p div' iter = Inr (velocX, velocY, p, div')"
proof -
  let ?Z = "field_inv N (\<lambda>v. v = 0)"
  let ?J = "\<lambda>w. ?Z (fst w) \<and> ?Z (snd w)"
  obtain div1 p1 where l1:
    "fold (\<lambda>j. fold (project_div_cell N velocX velocY j) [1..N]) [1..N] (div', p) = (div1, p1)"
    by (cases "fold (\<lambda>j. fold (project_div_cell N velocX velocY j) [1..N]) [1..N] (div', p)")
  have "?J (fold (\<lambda>j. fold (project_div_cell N velocX velocY j) [1..N]) [1..N] (div', p))"
    by (rule fold2_inv [where I = ?J]) (simp_all add: assms project_div_cell_zero)
  then have z1: "?Z div1" "?Z p1" by (simp_all add: l1)
  have d2: "set_bnd N 0 div1 = div'"
    by (rule zero_fields_equal [OF set_bnd_inv [OF z1(1) convex_avg [OF zero_convex] zero_neg] assms(4)])
  have p2: "set_bnd N 0 p1 = p"
    by (rule zero_fields_equal [OF set_bnd_inv [OF z1(2) convex_avg [OF zero_convex] zero_neg] assms(3)])
  obtain p3 where "lin_solve N 0 p div' 1 6 iter = Inr p3" "?Z p3"
    using lin_solve_inv [of 6 N "\<lambda>v. v = 0" div' "\<lambda>v. v = 0" p 1 0 iter]
      assms zero_relax convex_avg [OF zero_convex] zero_neg by auto
  then have l2: "lin_solve N 0 p div' 1 6 iter = Inr p"
    using zero_fields_equal [OF assms(3), of p3] by simp
  obtain vX vY where l3:
    "fold (\<lambda>j. fold (project_grad_cell N p j) [1..N]) [1..N] (velocX, velocY) = (vX, vY)"
    by (cases "fold (\<lambda>j. fold (project_grad_cell N p j) [1..N]) [1..N] (velocX, velocY)")
  have "?J (fold (\<lambda>j. fold (project_grad_cell N p j) [1..N]) [1..N] (velocX, velocY))"
    by (rule fold2_inv [where I = ?J]) (simp_all add: assms project_grad_cell_zero)
  then have z3: "?Z vX" "?Z vY" by (simp_all add: l3)
  have v1: "set_bnd N 1 vX = velocX"
    by (rule zero_fields_equal [OF set_bnd_inv [OF z3(1) convex_avg [OF zero_convex] zero_neg] assms(1)])
  have v2: "set_bnd N 2 vY = velocY"
    by (rule zero_fields_equal [OF set_bnd_inv [OF z3(2) convex_avg [OF zero_convex] zero_neg] assms(2)])
  show ?thesis
    by (simp add: project_def l1 d2 p2 l2 l3 v1 v2)
qed

lemma fade_zero_rate: "fade 0 x = x"
  by (simp add: fade_def)

lemma step_zero:
  assumes "wf_solver S"
    "zero_field (s S)" "zero_field (density S)" "zero_field (Vx S)" "zero_field (Vy S)"
    "zero_field (Vx0 S)" "zero_field (Vy0 S)"
    "1 + 6 * (dt S * visc S * real_of_int (sizeN S - 2) * real_of_int (sizeN S - 2)) \<noteq> 0"
    "1 + 6 * (dt S * diff S * real_of_int (sizeN S - 2) * real_of_int (sizeN S - 2)) \<noteq> 0"
  shows "step S iter 0 = Inr S"
proof -
  let ?N = "sizeN S"
  let ?Z = "field_inv ?N (\<lambda>v. v = 0)"
  have z: "?Z (s S)" "?Z (density S)" "?Z (Vx S)" "?Z (Vy S)" "?Z (Vx0 S)" "?Z (Vy0 S)"
    using assms(1-7) by (simp_all add: wf_solver_def field_inv_def zero_field_def)
  have d1: "diffuse ?N 1 (Vx0 S) (Vx S) (visc S) (dt S) iter = Inr (Vx0 S)"
    by (rule diffuse_zero [OF assms(8) z(3) z(5)])
  have d2: "diffuse ?N 2 (Vy0 S) (Vy S) (visc S) (dt S) iter = Inr (Vy0 S)"
    by (rule diffuse_zero [OF assms(8) z(4) z(6)])
  have p1: "project ?N (Vx0 S) (Vy0 S) (Vx S) (Vy S) iter = Inr (Vx0 S, Vy0 S, Vx S, Vy S)"
    by (rule project_zero [OF z(5) z(6) z(3) z(4)])
  have a1: "advect ?N 1 (Vx S) (Vx0 S) (Vx0 S) (Vy0 S) (dt S) = Vx S"
    by (rule advect_zero [OF z(5) z(3)])
  have a2: "advect ?N 2 (Vy S) (Vy0 S) (Vx0 S) (Vy0 S) (dt S) = Vy S"
    by (rule advect_zero [OF z(6) z(4)])
  have p2: "project ?N (Vx S) (Vy S) (Vx0 S) (Vy0 S) iter = Inr (Vx S, Vy S, Vx0 S, Vy0 S)"
    by (rule project_zero [OF z(3) z(4) z(5) z(6)])
  have d3: "diffuse ?N 0 (s S) (density S) (diff S) (dt S) iter = Inr (s S)"
    by (rule diffuse_zero [OF assms(9) z(2) z(1)])
  have a3: "advect ?N 0 (density S) (s S) (Vx S) (Vy S) (dt S) = density S"
    by (rule advect_zero [OF z(1) z(2)])
  show ?thesis
    by (simp add: step_def Let_def d1 d2 p1 a1 a2 p2 d3 a3 fade_zero_rate)
qed

subsection \<open>A freshly constructed solver\<close>

lemma new_solver_simps:
  "sizeN (new_solver N d v t) = N" "dt (new_solver N d v t) = t"
  "diff (new_solver N d v t) = d" "visc (new_solver N d v t) = v"
  "s (new_solver N d v t) = replicate (nat ((N + 2) * (N + 2))) 0"
  "density (new_solver N d v t) = replicate (nat ((N + 2) * (N + 2))) 0"
  "Vx (new_solver N d v t) = replicate (nat ((N + 2) * (N + 2))) 0"
  "Vy (new_solver N d v t) = replicate (nat ((N + 2) * (N + 2))) 0"
  "Vx0 (new_solver N d v t) = replicate (nat ((N + 2) * (N + 2))) 0"
  "Vy0 (new_solver N d v t) = replicate (nat ((N + 2) * (N + 2))) 0"
  by (simp_all add: new_solver_def)

lemma wf_new_solver: "0 \<le> N \<Longrightarrow> wf_solver (new_solver N d v t)"
  by (simp add: wf_solver_def wf_field_def new_solver_simps)

lemma zero_field_replicate: "zero_field (replicate n 0)"
  by (simp add: zero_field_def list_all_iff)

subsection \<open>Zero is a fixed point\<close>

text \<open>
  The relaxation solver divides by \<open>c = 1 + 6 * a\<close> with \<open>a = dt * rate * (N - 2)\<^sup>2\<close>.
  With a time step and a rate that are not negative \<open>c\<close> is at least \<open>1\<close>. With a negative
  rate it can be \<open>0\<close>: then the source computes the reciprocal \<open>1.0 / 0\<close>.
\<close>

lemma relaxation_defined:
  assumes "0 \<le> t" "0 \<le> d"
  shows "1 + 6 * (t * d * real_of_int (N - 2) * real_of_int (N - 2)) \<noteq> 0"
proof -
  have "0 \<le> t * d * real_of_int (N - 2) * real_of_int (N - 2)"
    using assms by (simp add: mult.assoc)
  then show ?thesis by simp
qed

lemma step_division_by_zero:
  "1 \<le> iter \<Longrightarrow> step (new_solver 3 0 (- 1/6) 1) iter fadeRate = Inl NonFinite"
  by (simp add: step_def diffuse_def lin_solve_def Let_def new_solver_simps)

lemma bounded_field_replicate: "lo \<le> v \<Longrightarrow> v \<le> hi \<Longrightarrow> bounded_field lo hi (replicate n v)"
  by (simp add: bounded_field_def list_all_iff)

lemma finite_range_new_solver:
  assumes "N < 2 ^ 26" "\<bar>t\<bar> \<le> 2 ^ 100" "\<bar>v\<bar> \<le> 2 ^ 100" "\<bar>d\<bar> \<le> 2 ^ 100"
  shows "finite_range (new_solver N d v t)"
  using assms by (simp add: finite_range_def new_solver_simps bounded_field_replicate)

text \<open>
  The claim as the specification states it asks nothing of the configuration. A solver with
  grid size \<open>3\<close>, time step \<open>1\<close> and viscosity \<open>- 1/6\<close> has six zero buffers, and its first tick
  divides by \<open>c = 1 + 6 * (1 * (- 1/6) * 1 * 1) = 0\<close>: the cells of \<open>Vx0\<close> are not numbers
  afterwards.
\<close>

theorem zero_not_fixed_point:
  "FluidSolver 25 3 0 (- 1/6) 1 = Inr (new_solver 3 0 (- 1/6) 1)
   \<and> zero_field (s (new_solver 3 0 (- 1/6) 1)) \<and> zero_field (density (new_solver 3 0 (- 1/6) 1))
   \<and> zero_field (Vx (new_solver 3 0 (- 1/6) 1)) \<and> zero_field (Vy (new_solver 3 0 (- 1/6) 1))
   \<and> zero_field (Vx0 (new_solver 3 0 (- 1/6) 1)) \<and> zero_field (Vy0 (new_solver 3 0 (- 1/6) 1))
   \<and> step (new_solver 3 0 (- 1/6) 1) 1 0 = Inl NonFinite
   \<and> step (new_solver 3 0 (- 1/6) 1) 1 0 \<noteq> Inr (new_solver 3 0 (- 1/6) 1)"
proof -
  have "FluidSolver 25 3 0 (- 1/6) 1 = Inr (new_solver 3 0 (- 1/6) 1)"
    by (simp add: FluidSolver_def new_solver_def Let_def)
  then show ?thesis
    using step_division_by_zero [of 1 0]
    by (simp add: new_solver_simps zero_field_replicate)
qed

text \<open>
  Claim C4, for a configuration without negative numbers. In a solver of the allocated shape
  whose six buffers are all zero, whose time step, viscosity and diffusion rate are not
  negative, and whose magnitudes are in the finite range, \<open>k\<close> ticks in a row with fade rate
  \<open>0\<close>, any iteration count and nothing injected in between return the same solver: every cell
  of every buffer is still zero.
\<close>

theorem zero_is_fixed_point:
  assumes "wf_solver S"
    "zero_field (s S)" "zero_field (density S)" "zero_field (Vx S)" "zero_field (Vy S)"
    "zero_field (Vx0 S)" "zero_field (Vy0 S)"
    "0 \<le> dt S" "0 \<le> visc S" "0 \<le> diff S" "finite_range S"
  shows "steps k S iter 0 = Inr S"
proof -
  have "step S iter 0 = Inr S"
    by (rule step_zero [OF assms(1-7) relaxation_defined [OF assms(8,9)]
          relaxation_defined [OF assms(8,10)]])
  then show ?thesis by (induction k) simp_all
qed

theorem zero_is_fixed_point_witness:
  "wf_solver (new_solver 3 0 (1/100000) (1/10))
   \<and> zero_field (density (new_solver 3 0 (1/100000) (1/10)))
   \<and> zero_field (Vx (new_solver 3 0 (1/100000) (1/10)))
   \<and> finite_range (new_solver 3 0 (1/100000) (1/10))
   \<and> steps 5 (new_solver 3 0 (1/100000) (1/10)) 10 0 = Inr (new_solver 3 0 (1/100000) (1/10))"
  using zero_is_fixed_point [of "new_solver 3 0 (1/100000) (1/10)" 5 10]
  by (simp add: wf_new_solver new_solver_simps zero_field_replicate finite_range_new_solver)

subsection \<open>Construction\<close>

text \<open>
  The constructor has no check. With the largest array length that the language admits, a
  grid resolution of \<open>0\<close> with negative diffusion rate, viscosity and time step is accepted;
  and a grid resolution of \<open>100000000\<close> with valid coefficients is refused, by the allocation.
\<close>

theorem constructor_rejects_nothing:
  "FluidSolver 9007199254740991 0 (- 1) (- 1) (- 1) = Inr (new_solver 0 (- 1) (- 1) (- 1))
   \<and> FluidSolver 9007199254740991 0 (- 1) (- 1) (- 1) \<noteq> Inl InvalidConfiguration
   \<and> FluidSolver 9007199254740991 100000000 0 0 (1/10) = Inl RangeError"
  by (simp add: FluidSolver_def new_solver_def Let_def)

lemma FluidSolver_new_solver:
  "nat ((N + 2) * (N + 2)) \<le> maxLength
   \<Longrightarrow> FluidSolver maxLength N diffusion viscosity dt' = Inr (new_solver N diffusion viscosity dt')"
  by (simp add: FluidSolver_def new_solver_def Let_def)

text \<open>
  Claim C1, as the code has it. For every integer grid resolution, diffusion rate, viscosity
  and time step, whatever their signs, construction never fails with
  \<open>InvalidConfiguration\<close>. It fails, with \<open>RangeError\<close>, exactly when \<open>(N + 2) * (N + 2)\<close> is more
  than the engine allocates; otherwise it returns a solver that keeps the four arguments as
  given and owns six zero-filled buffers of \<open>(N + 2) * (N + 2)\<close> cells each, which for \<open>0 \<le> N\<close>
  is the shape that the other statements assume.
\<close>

theorem constructor_fails_only_on_allocation:
  "FluidSolver maxLength N diffusion viscosity dt' \<noteq> Inl InvalidConfiguration
   \<and> FluidSolver maxLength N diffusion viscosity dt' \<noteq> Inl NonFinite
   \<and> (FluidSolver maxLength N diffusion viscosity dt' = Inl RangeError
        \<longleftrightarrow> maxLength < nat ((N + 2) * (N + 2)))
   \<and> (nat ((N + 2) * (N + 2)) \<le> maxLength \<longrightarrow>
        (\<exists>S. FluidSolver maxLength N diffusion viscosity dt' = Inr S
           \<and> sizeN S = N \<and> dt S = dt' \<and> diff S = diffusion \<and> visc S = viscosity
           \<and> length (s S) = nat ((N + 2) * (N + 2)) \<and> zero_field (s S)
           \<and> length (density S) = nat ((N + 2) * (N + 2)) \<and> zero_field (density S)
           \<and> length (Vx S) = nat ((N + 2) * (N + 2)) \<and> zero_field (Vx S)
           \<and> length (Vy S) = nat ((N + 2) * (N + 2)) \<and> zero_field (Vy S)
           \<and> length (Vx0 S) = nat ((N + 2) * (N + 2)) \<and> zero_field (Vx0 S)
           \<and> length (Vy0 S) = nat ((N + 2) * (N + 2)) \<and> zero_field (Vy0 S)
           \<and> (0 \<le> N \<longrightarrow> wf_solver S)))"
proof -
  have a: "FluidSolver maxLength N diffusion viscosity dt' \<noteq> Inl InvalidConfiguration"
    "FluidSolver maxLength N diffusion viscosity dt' \<noteq> Inl NonFinite"
    "FluidSolver maxLength N diffusion viscosity dt' = Inl RangeError
       \<longleftrightarrow> maxLength < nat ((N + 2) * (N + 2))"
    by (simp_all add: FluidSolver_def Let_def)
  have b: "\<exists>S. FluidSolver maxLength N diffusion viscosity dt' = Inr S
           \<and> sizeN S = N \<and> dt S = dt' \<and> diff S = diffusion \<and> visc S = viscosity
           \<and> length (s S) = nat ((N + 2) * (N + 2)) \<and> zero_field (s S)
           \<and> length (density S) = nat ((N + 2) * (N + 2)) \<and> zero_field (density S)
           \<and> length (Vx S) = nat ((N + 2) * (N + 2)) \<and> zero_field (Vx S)
           \<and> length (Vy S) = nat ((N + 2) * (N + 2)) \<and> zero_field (Vy S)
           \<and> length (Vx0 S) = nat ((N + 2) * (N + 2)) \<and> zero_field (Vx0 S)
           \<and> length (Vy0 S) = nat ((N + 2) * (N + 2)) \<and> zero_field (Vy0 S)
           \<and> (0 \<le> N \<longrightarrow> wf_solver S)"
    if "nat ((N + 2) * (N + 2)) \<le> maxLength"
    using FluidSolver_new_solver [OF that, of diffusion viscosity dt']
    by (simp add: new_solver_simps zero_field_replicate wf_new_solver)
  from a b show ?thesis by blast
qed

theorem constructor_fails_only_on_allocation_witness:
  "nat ((128 + 2) * (128 + 2)) \<le> (4294967295::nat)
   \<and> FluidSolver 4294967295 128 0 (1/100000) (1/10) \<noteq> Inl RangeError
   \<and> (\<exists>S. FluidSolver 4294967295 128 0 (1/100000) (1/10) = Inr S
         \<and> sizeN S = 128 \<and> dt S = 1/10 \<and> length (density S) = 16900
         \<and> zero_field (density S) \<and> wf_solver S)"
  using constructor_fails_only_on_allocation [of 4294967295 128 0 "1/100000" "1/10"]
  by auto

subsection \<open>Injection\<close>

lemma density_addDensity_fresh:
  "0 \<le> N \<Longrightarrow> to_float32 (to_double amount) = amount
   \<Longrightarrow> density (addDensity (new_solver N d v t) x y amount)
     = (replicate (nat ((N + 2) * (N + 2))) 0)[nat (IX N x y) := amount]"
  using IX_upper [of N x y] IX_nonneg [of N x y]
  by (simp add: addDensity_def Let_def new_solver_simps)

lemma addDensity_other_fields:
  "s (addDensity S x y amount) = s S" "Vx (addDensity S x y amount) = Vx S"
  "Vy (addDensity S x y amount) = Vy S" "Vx0 (addDensity S x y amount) = Vx0 S"
  "Vy0 (addDensity S x y amount) = Vy0 S" "sizeN (addDensity S x y amount) = sizeN S"
  "dt (addDensity S x y amount) = dt S" "diff (addDensity S x y amount) = diff S"
  "visc (addDensity S x y amount) = visc S"
  by (simp_all add: addDensity_def Let_def)

lemma wf_addDensity: "wf_solver S \<Longrightarrow> wf_solver (addDensity S x y amount)"
  by (simp add: addDensity_def Let_def wf_solver_def wf_field_def)

text \<open>
  The cell does not always grow by the amount. On a fresh solver with \<open>N = 4\<close>,
  \<open>addDensity(2, 2, 16777216)\<close> leaves \<open>16777216\<close> in the cell at offset \<open>14\<close>; then
  \<open>addDensity(2, 2, 1)\<close> leaves the cell as it is, because the sum \<open>16777217\<close> is not a
  single-precision number.
\<close>

theorem addDensity_absorbs_amount:
  "density (addDensity (new_solver 4 0 0 (1/10)) 2 2 16777216) ! nat (IX 4 2 2) = 16777216
   \<and> density (addDensity (addDensity (new_solver 4 0 0 (1/10)) 2 2 16777216) 2 2 1) ! nat (IX 4 2 2)
       = 16777216
   \<and> density (addDensity (addDensity (new_solver 4 0 0 (1/10)) 2 2 16777216) 2 2 1) ! nat (IX 4 2 2)
       \<noteq> density (addDensity (new_solver 4 0 0 (1/10)) 2 2 16777216) ! nat (IX 4 2 2) + 1"
proof -
  let ?S = "addDensity (new_solver 4 0 0 (1/10)) 2 2 16777216"
  have i: "nat (IX 4 2 2) = 14" by (simp add: IX_def)
  have D: "density ?S = (replicate (nat ((4 + 2) * (4 + 2))) 0)[nat (IX 4 2 2) := 16777216]"
    by (rule density_addDensity_fresh) (simp_all add: float32_16777216)
  have c: "density ?S ! 14 = 16777216" by (simp add: D i)
  have "density (addDensity ?S 2 2 1) ! 14 = to_float32 (to_double (density ?S ! 14 + 1))"
    by (simp add: addDensity_def Let_def addDensity_other_fields new_solver_simps i D)
  then have "density (addDensity ?S 2 2 1) ! 14 = 16777216"
    by (simp add: c float32_16777217)
  with c show ?thesis by (simp add: i)
qed

text \<open>
  Claim C10, with the rounding of the store. For all integers \<open>x\<close>, \<open>y\<close> and every amount,
  \<open>addDensity\<close> returns a solver in which every density cell other than the one at offset
  \<open>IX x y\<close> and the length are as before, and the other five buffers and the four parameters
  are unchanged. The cell at offset \<open>IX x y\<close> holds the sum of its old value and the amount,
  rounded to a double and then to single precision, as long as the sum is at most \<open>2\<^bsup>127\<^esup>\<close>
  in absolute value (beyond the single-precision range the source stores an infinity): it
  differs from the exact sum by at most \<open>2\<^bsup>-23\<^esup>\<close> times the sum plus \<open>2\<^bsup>-149\<^esup>\<close>. The function is
  total: there is no failing branch.
\<close>

theorem addDensity_frame:
  assumes "wf_solver S"
  shows "(\<bar>density S ! nat (IX (sizeN S) x y) + amount\<bar> \<le> 2 ^ 127 \<longrightarrow>
            density (addDensity S x y amount) ! nat (IX (sizeN S) x y)
              = to_float32 (to_double (density S ! nat (IX (sizeN S) x y) + amount))
          \<and> \<bar>density (addDensity S x y amount) ! nat (IX (sizeN S) x y)
               - (density S ! nat (IX (sizeN S) x y) + amount)\<bar>
              \<le> \<bar>density S ! nat (IX (sizeN S) x y) + amount\<bar> / 2 ^ 23 + 1 / 2 ^ 149)
       \<and> (\<forall>k. k \<noteq> nat (IX (sizeN S) x y) \<longrightarrow>
             density (addDensity S x y amount) ! k = density S ! k)
       \<and> length (density (addDensity S x y amount)) = length (density S)
       \<and> s (addDensity S x y amount) = s S
       \<and> Vx (addDensity S x y amount) = Vx S \<and> Vy (addDensity S x y amount) = Vy S
       \<and> Vx0 (addDensity S x y amount) = Vx0 S \<and> Vy0 (addDensity S x y amount) = Vy0 S
       \<and> sizeN (addDensity S x y amount) = sizeN S \<and> dt (addDensity S x y amount) = dt S
       \<and> diff (addDensity S x y amount) = diff S \<and> visc (addDensity S x y amount) = visc S
       \<and> wf_solver (addDensity S x y amount)"
proof -
  let ?k = "nat (IX (sizeN S) x y)"
  have k: "?k < length (density S)"
    using assms by (simp add: wf_solver_def IX_in_field)
  have c: "density (addDensity S x y amount) ! ?k = to_float32 (to_double (density S ! ?k + amount))"
    using k by (simp add: addDensity_def Let_def)
  have e: "\<bar>density (addDensity S x y amount) ! ?k - (density S ! ?k + amount)\<bar>
      \<le> \<bar>density S ! ?k + amount\<bar> / 2 ^ 23 + 1 / 2 ^ 149"
    unfolding c by (rule float32_error)
  have r: "(\<forall>k. k \<noteq> ?k \<longrightarrow> density (addDensity S x y amount) ! k = density S ! k)
       \<and> length (density (addDensity S x y amount)) = length (density S)
       \<and> wf_solver (addDensity S x y amount)"
    using assms by (simp add: addDensity_def Let_def wf_solver_def wf_field_def)
  from c e r show ?thesis by (simp add: addDensity_other_fields)
qed

theorem addDensity_frame_witness:
  "wf_solver (new_solver 4 0 0 (1/10))
   \<and> \<bar>density (new_solver 4 0 0 (1/10)) ! nat (IX 4 (- 3) 99) + 150\<bar> \<le> 2 ^ 127
   \<and> density (addDensity (new_solver 4 0 0 (1/10)) (- 3) 99 150) ! nat (IX 4 (- 3) 99) = 150
   \<and> density (addDensity (new_solver 4 0 0 (1/10)) (- 3) 99 150) ! 0 = 0
   \<and> s (addDensity (new_solver 4 0 0 (1/10)) (- 3) 99 150) = s (new_solver 4 0 0 (1/10))"
proof -
  have i: "nat (IX 4 (- 3) 99) = 30" by (simp add: IX_def)
  have z: "density (new_solver 4 0 0 (1/10)) ! 30 = 0" "density (new_solver 4 0 0 (1/10)) ! 0 = 0"
    by (simp_all add: new_solver_simps)
  have b: "\<bar>(0::real) + 150\<bar> \<le> 2 ^ 127" by simp
  show ?thesis
    using addDensity_frame [of "new_solver 4 0 0 (1/10)" "- 3" 99 150] b
    by (simp add: wf_new_solver new_solver_simps i z float32_150)
qed

subsection \<open>The tick keeps the shape and the sign of the density\<close>

lemma true_convex: "convex_closed (\<lambda>v. True)"
  by (simp add: convex_closed_def)

lemma true_neg: "neg_closed b (\<lambda>v. True)"
  by (simp add: neg_closed_def)

lemma true_relax: "relax_closed Q (\<lambda>v. True) a cRecip"
  by (simp add: relax_closed_def)

lemma field_inv_True: "field_inv N (\<lambda>v. True) x = wf_field N x"
  by (simp add: field_inv_def list_all_iff)

lemma project_div_cell_wf:
  assumes "wf_field N (fst dp) \<and> wf_field N (snd dp)"
  shows "wf_field N (fst (project_div_cell N velocX velocY j i dp))
       \<and> wf_field N (snd (project_div_cell N velocX velocY j i dp))"
  using assms by (cases dp) (simp add: project_div_cell_def wf_field_wr)

lemma project_grad_cell_wf:
  assumes "wf_field N (fst vv) \<and> wf_field N (snd vv)"
  shows "wf_field N (fst (project_grad_cell N p j i vv))
       \<and> wf_field N (snd (project_grad_cell N p j i vv))"
  using assms by (cases vv) (simp add: project_grad_cell_def wf_field_wr)

lemma set_bnd_wf: "wf_field N x \<Longrightarrow> wf_field N (set_bnd N b x)"
  using set_bnd_inv [of N "\<lambda>v. True" x b]
  by (simp add: field_inv_True convex_avg [OF true_convex] true_neg)

lemma project_wf:
  assumes "wf_field N velocX" "wf_field N velocY" "wf_field N p" "wf_field N div'"
  shows "\<exists>vX vY p' d'. project N velocX velocY p div' iter = Inr (vX, vY, p', d')
           \<and> wf_field N vX \<and> wf_field N vY \<and> wf_field N p' \<and> wf_field N d'"
proof -
  let ?J = "\<lambda>w. wf_field N (fst w) \<and> wf_field N (snd w)"
  obtain div1 p1 where l1:
    "fold (\<lambda>j. fold (project_div_cell N velocX velocY j) [1..N]) [1..N] (div', p) = (div1, p1)"
    by (cases "fold (\<lambda>j. fold (project_div_cell N velocX velocY j) [1..N]) [1..N] (div', p)")
  have "?J (fold (\<lambda>j. fold (project_div_cell N velocX velocY j) [1..N]) [1..N] (div', p))"
    by (rule fold2_inv [where I = ?J]) (simp_all add: assms project_div_cell_wf)
  then have z1: "wf_field N div1" "wf_field N p1" by (simp_all add: l1)
  obtain p3 where l2: "lin_solve N 0 (set_bnd N 0 p1) (set_bnd N 0 div1) 1 6 iter = Inr p3"
    and w3: "wf_field N p3"
    using lin_solve_inv [of 6 N "\<lambda>v. True" "set_bnd N 0 div1" "\<lambda>v. True" "set_bnd N 0 p1" 1 0 iter]
      z1 true_relax convex_avg [OF true_convex] true_neg
    by (auto simp: field_inv_True set_bnd_wf)
  obtain vX vY where l3:
    "fold (\<lambda>j. fold (project_grad_cell N p3 j) [1..N]) [1..N] (velocX, velocY) = (vX, vY)"
    by (cases "fold (\<lambda>j. fold (project_grad_cell N p3 j) [1..N]) [1..N] (velocX, velocY)")
  have "?J (fold (\<lambda>j. fold (project_grad_cell N p3 j) [1..N]) [1..N] (velocX, velocY))"
    by (rule fold2_inv [where I = ?J]) (simp_all add: assms project_grad_cell_wf)
  then have z3: "wf_field N vX" "wf_field N vY" by (simp_all add: l3)
  show ?thesis
    by (simp add: project_def Let_def l1 l2 l3 set_bnd_wf z1 z3 w3)
qed

lemma advect_wf:
  "wf_field N d0 \<Longrightarrow> wf_field N d \<Longrightarrow> wf_field N (advect N b d d0 velocX velocY dt')"
  using advect_inv [of N "\<lambda>v. True" d0 d b velocX velocY dt']
  by (simp add: field_inv_True true_convex true_neg)

lemma diffuse_wf:
  assumes "1 + 6 * (dt' * diff' * real_of_int (N - 2) * real_of_int (N - 2)) \<noteq> 0"
    "wf_field N x0" "wf_field N x"
  shows "\<exists>y. diffuse N b x x0 diff' dt' iter = Inr y \<and> wf_field N y"
  using diffuse_inv [of dt' diff' N "\<lambda>v. True" x0 "\<lambda>v. True" x b iter] assms
  by (simp add: field_inv_True true_relax convex_avg [OF true_convex] true_neg)

lemma fade_length: "length (fade r x) = length x"
  by (simp add: fade_def)

lemma fade_wf: "wf_field N (fade r x) = wf_field N x"
  by (simp add: wf_field_def fade_length)

text \<open>
  The density half of a tick. The velocity stages never fail (given the inequation of the
  viscosity) and return arrays of the allocated shape; whatever they return, the advection
  writes weighted means of the diffused buffer. So a convex property \<open>P\<close> of the cells of the
  diffused buffer and of the old density holds for the advected density; the fade comes last.
\<close>

lemma step_density_gen:
  assumes wf: "wf_solver S"
    and cv: "1 + 6 * (dt S * visc S * real_of_int (sizeN S - 2) * real_of_int (sizeN S - 2)) \<noteq> 0"
    and d3: "diffuse (sizeN S) 0 (s S) (density S) (diff S) (dt S) iter = Inr s_1"
    and i1: "field_inv (sizeN S) P s_1" and i0: "list_all P (density S)"
    and cl: "convex_closed P"
  shows "\<exists>S' D. step S iter fadeRate = Inr S' \<and> wf_solver S' \<and> sizeN S' = sizeN S
           \<and> dt S' = dt S \<and> diff S' = diff S \<and> visc S' = visc S
           \<and> s S' = s_1 \<and> list_all P D \<and> density S' = fade fadeRate D"
proof -
  let ?N = "sizeN S"
  have w: "wf_field ?N (s S)" "wf_field ?N (density S)" "wf_field ?N (Vx S)"
    "wf_field ?N (Vy S)" "wf_field ?N (Vx0 S)" "wf_field ?N (Vy0 S)"
    using wf by (simp_all add: wf_solver_def)
  obtain Vx0_1 where d1: "diffuse ?N 1 (Vx0 S) (Vx S) (visc S) (dt S) iter = Inr Vx0_1"
    and w1: "wf_field ?N Vx0_1"
    using diffuse_wf [OF cv w(3) w(5)] by blast
  obtain Vy0_1 where d2: "diffuse ?N 2 (Vy0 S) (Vy S) (visc S) (dt S) iter = Inr Vy0_1"
    and w2: "wf_field ?N Vy0_1"
    using diffuse_wf [OF cv w(4) w(6)] by blast
  obtain Vx0_2 Vy0_2 Vx_1 Vy_1 where
    p1: "project ?N Vx0_1 Vy0_1 (Vx S) (Vy S) iter = Inr (Vx0_2, Vy0_2, Vx_1, Vy_1)"
    and w3: "wf_field ?N Vx0_2" "wf_field ?N Vy0_2" "wf_field ?N Vx_1" "wf_field ?N Vy_1"
    using project_wf [OF w1 w2 w(3) w(4)] by blast
  let ?Vx_2 = "advect ?N 1 Vx_1 Vx0_2 Vx0_2 Vy0_2 (dt S)"
  let ?Vy_2 = "advect ?N 2 Vy_1 Vy0_2 Vx0_2 Vy0_2 (dt S)"
  have w4: "wf_field ?N ?Vx_2" "wf_field ?N ?Vy_2"
    by (simp_all add: advect_wf w3)
  obtain Vx_3 Vy_3 Vx0_3 Vy0_3 where
    p2: "project ?N ?Vx_2 ?Vy_2 Vx0_2 Vy0_2 iter = Inr (Vx_3, Vy_3, Vx0_3, Vy0_3)"
    and w5: "wf_field ?N Vx_3" "wf_field ?N Vy_3" "wf_field ?N Vx0_3" "wf_field ?N Vy0_3"
    using project_wf [OF w4 w3(1) w3(2)] by blast
  have i0': "field_inv ?N P (density S)" using w(2) i0 by (simp add: field_inv_def)
  let ?D = "advect ?N 0 (density S) s_1 Vx_3 Vy_3 (dt S)"
  have i2: "field_inv ?N P ?D"
    by (rule advect_inv [OF i1 i0' cl]) (simp add: neg_closed_def)
  let ?S' = "S\<lparr> s := s_1, density := fade fadeRate ?D,
                 Vx := Vx_3, Vy := Vy_3, Vx0 := Vx0_3, Vy0 := Vy0_3 \<rparr>"
  have st: "step S iter fadeRate = Inr ?S'"
    by (simp add: step_def Let_def d1 d2 p1 p2 d3)
  have "wf_solver ?S'"
    using i1 i2 w5 by (simp add: wf_solver_def field_inv_def fade_wf)
  with st i2 show ?thesis
    by (intro exI [of _ ?S'] exI [of _ ?D]) (simp add: field_inv_def)
qed

lemma step_density_inv:
  assumes wf: "wf_solver S"
    and cv: "1 + 6 * (dt S * visc S * real_of_int (sizeN S - 2) * real_of_int (sizeN S - 2)) \<noteq> 0"
    and cd: "1 + 6 * (dt S * diff S * real_of_int (sizeN S - 2) * real_of_int (sizeN S - 2)) \<noteq> 0"
    and P: "list_all P (s S)" "list_all P (density S)"
    and cl: "convex_closed P"
      "relax_closed P P (dt S * diff S * real_of_int (sizeN S - 2) * real_of_int (sizeN S - 2))
         (1 / (1 + 6 * (dt S * diff S * real_of_int (sizeN S - 2) * real_of_int (sizeN S - 2))))"
  shows "\<exists>S' D. step S iter fadeRate = Inr S' \<and> wf_solver S' \<and> sizeN S' = sizeN S
           \<and> dt S' = dt S \<and> diff S' = diff S \<and> visc S' = visc S
           \<and> list_all P (s S') \<and> list_all P D \<and> density S' = fade fadeRate D"
proof -
  let ?N = "sizeN S"
  have i0: "field_inv ?N P (s S)" "field_inv ?N P (density S)"
    using wf P by (simp_all add: wf_solver_def field_inv_def)
  have "neg_closed 0 P" by (simp add: neg_closed_def)
  from diffuse_inv [OF cd i0(2) i0(1) cl(2) convex_avg [OF cl(1)] this, of iter]
  obtain s_1 where d3: "diffuse ?N 0 (s S) (density S) (diff S) (dt S) iter = Inr s_1"
    and i1: "field_inv ?N P s_1"
    by blast
  from step_density_gen [OF wf cv d3 i1 P(2) cl(1), of fadeRate] i1
  show ?thesis by (auto simp: field_inv_def)
qed

lemma nonneg_convex: "convex_closed (\<lambda>v. 0 \<le> v)"
  by (simp add: convex_closed_def)

lemma nonneg_relax:
  assumes "0 \<le> a"
  shows "relax_closed (\<lambda>v. 0 \<le> v) (\<lambda>v. 0 \<le> v) a (1 / (1 + 6 * a))"
  using assms by (simp add: relax_closed_def)

lemma diffusion_coefficient_nonneg:
  "0 \<le> t \<Longrightarrow> 0 \<le> d \<Longrightarrow> 0 \<le> t * d * real_of_int (N - 2) * real_of_int (N - 2)"
  by (simp add: mult.assoc)

lemma fade_nonneg: "list_all (\<lambda>v. 0 \<le> v) D \<Longrightarrow> list_all (\<lambda>v. 0 \<le> v) (fade r D)"
  by (simp add: fade_def list_all_iff)

lemma nonneg_addDensity:
  assumes "wf_solver S" "nonneg_field (density S)" "0 \<le> amount"
  shows "nonneg_field (density (addDensity S x y amount))
       \<and> s (addDensity S x y amount) = s S
       \<and> sizeN (addDensity S x y amount) = sizeN S
       \<and> dt (addDensity S x y amount) = dt S
       \<and> diff (addDensity S x y amount) = diff S
       \<and> visc (addDensity S x y amount) = visc S"
proof -
  let ?k = "nat (IX (sizeN S) x y)"
  have "?k < length (density S)"
    using assms(1) by (simp add: wf_solver_def IX_in_field)
  then have "0 \<le> density S ! ?k"
    using assms(2) by (simp add: nonneg_field_def list_all_length)
  then have "0 \<le> density S ! ?k + amount"
    using assms(3) by simp
  then have "0 \<le> to_float32 (to_double (density S ! ?k + amount))"
    by (simp add: to_float32_def to_double_def round_to_nonneg)
  then have "list_all (\<lambda>v. 0 \<le> v)
       ((density S)[?k := to_float32 (to_double (density S ! ?k + amount))])"
    using assms(2) cells_wr [of "\<lambda>v. 0 \<le> v" "density S" _ "sizeN S" x y]
    by (simp add: nonneg_field_def wr_def)
  then show ?thesis
    by (simp add: addDensity_def Let_def nonneg_field_def)
qed

lemma nonneg_field_replicate: "nonneg_field (replicate n 0)"
  by (simp add: nonneg_field_def list_all_iff)

lemma finite_range_addDensity: "finite_range (addDensity S x y amount) = finite_range S"
  by (simp add: finite_range_def addDensity_other_fields)

text \<open>
  The claim as stated lists no condition on the viscosity. A fresh solver with grid size \<open>4\<close>,
  time step \<open>1\<close>, diffusion rate \<open>0\<close> and viscosity \<open>- 1/24\<close>, after \<open>addDensity(2, 2, 100)\<close>,
  has no negative cell in \<open>density\<close> and \<open>s\<close>; its tick with one iteration and fade rate \<open>0\<close>
  divides by \<open>c = 1 + 6 * (1 * (- 1/24) * 2 * 2) = 0\<close> in the diffusion of the velocity, and
  the cells it leaves are not numbers.
\<close>

theorem density_not_kept_nonneg:
  "FluidSolver 36 4 0 (- 1/24) 1 = Inr (new_solver 4 0 (- 1/24) 1)
   \<and> nonneg_field (density (addDensity (new_solver 4 0 (- 1/24) 1) 2 2 100))
   \<and> nonneg_field (s (addDensity (new_solver 4 0 (- 1/24) 1) 2 2 100))
   \<and> 0 \<le> dt (addDensity (new_solver 4 0 (- 1/24) 1) 2 2 100)
   \<and> 0 \<le> diff (addDensity (new_solver 4 0 (- 1/24) 1) 2 2 100)
   \<and> step (addDensity (new_solver 4 0 (- 1/24) 1) 2 2 100) 1 0 = Inl NonFinite"
proof -
  let ?S0 = "new_solver 4 0 (- 1/24) 1"
  have w0: "wf_solver ?S0" by (simp add: wf_new_solver)
  have n0: "nonneg_field (density ?S0)" by (simp add: new_solver_simps nonneg_field_replicate)
  note a = nonneg_addDensity [OF w0 n0, of 100 2 2]
  have n: "nonneg_field (density (addDensity ?S0 2 2 100))" using a by simp
  have m: "nonneg_field (s (addDensity ?S0 2 2 100))"
    using a by (simp add: new_solver_simps nonneg_field_replicate)
  have c: "FluidSolver 36 4 0 (- 1/24) 1 = Inr ?S0"
    by (rule FluidSolver_new_solver) simp
  have "step (addDensity ?S0 2 2 100) 1 0 = Inl NonFinite"
    by (simp add: step_def diffuse_def lin_solve_def Let_def addDensity_other_fields
        new_solver_simps)
  with n m c show ?thesis by (simp add: addDensity_other_fields new_solver_simps)
qed

text \<open>
  Claim C9, with a viscosity that is not negative and magnitudes in the finite range. In a
  solver of the allocated shape with no negative cell in \<open>density\<close> and in the work buffer
  \<open>s\<close>, with time step, diffusion rate and viscosity not negative, and with time step, rates
  and velocity cells of at most \<open>2\<^bsup>100\<^esup>\<close> in absolute value, one tick with a fade rate in
  \<open>[0, 1]\<close> and any iteration count returns a solver of the same shape in which no cell of
  \<open>density\<close> and of \<open>s\<close> is negative.
\<close>

theorem density_stays_nonneg:
  assumes "wf_solver S" "nonneg_field (density S)" "nonneg_field (s S)"
    "0 \<le> dt S" "0 \<le> diff S" "0 \<le> visc S" "finite_range S"
    "0 \<le> fadeRate" "fadeRate \<le> 1"
  shows "\<exists>S'. step S iter fadeRate = Inr S' \<and> wf_solver S'
           \<and> nonneg_field (density S') \<and> nonneg_field (s S')"
proof -
  let ?a = "dt S * diff S * real_of_int (sizeN S - 2) * real_of_int (sizeN S - 2)"
  have a: "0 \<le> ?a" by (rule diffusion_coefficient_nonneg [OF assms(4,5)])
  then have cd: "1 + 6 * ?a \<noteq> 0" by simp
  have cv: "1 + 6 * (dt S * visc S * real_of_int (sizeN S - 2) * real_of_int (sizeN S - 2)) \<noteq> 0"
    by (rule relaxation_defined [OF assms(4,6)])
  obtain S' D where "step S iter fadeRate = Inr S'" "wf_solver S'"
    "list_all (\<lambda>v. 0 \<le> v) (s S')" "list_all (\<lambda>v. 0 \<le> v) D" "density S' = fade fadeRate D"
    using step_density_inv [OF assms(1) cv cd _ _ nonneg_convex nonneg_relax [OF a],
        of iter fadeRate] assms(2,3)
    by (auto simp: nonneg_field_def)
  then show ?thesis by (auto simp: nonneg_field_def fade_nonneg)
qed

theorem density_stays_nonneg_witness:
  "wf_solver (addDensity (new_solver 3 (1/1000) (1/100000) (1/10)) 2 2 150)
   \<and> nonneg_field (density (addDensity (new_solver 3 (1/1000) (1/100000) (1/10)) 2 2 150))
   \<and> nonneg_field (s (addDensity (new_solver 3 (1/1000) (1/100000) (1/10)) 2 2 150))
   \<and> finite_range (addDensity (new_solver 3 (1/1000) (1/100000) (1/10)) 2 2 150)
   \<and> (\<exists>S'. step (addDensity (new_solver 3 (1/1000) (1/100000) (1/10)) 2 2 150) 10 (1/100) = Inr S'
          \<and> wf_solver S' \<and> nonneg_field (density S') \<and> nonneg_field (s S'))"
proof -
  let ?S0 = "new_solver 3 (1/1000) (1/100000) (1/10)"
  have w0: "wf_solver ?S0" by (simp add: wf_new_solver)
  have n0: "nonneg_field (density ?S0)" by (simp add: new_solver_simps nonneg_field_replicate)
  note a = nonneg_addDensity [OF w0 n0, of 150 2 2]
  have w: "wf_solver (addDensity ?S0 2 2 150)" by (rule wf_addDensity [OF w0])
  have n: "nonneg_field (density (addDensity ?S0 2 2 150))" using a by simp
  have m: "nonneg_field (s (addDensity ?S0 2 2 150))"
    using a by (simp add: new_solver_simps nonneg_field_replicate)
  have f: "finite_range (addDensity ?S0 2 2 150)"
    by (simp add: finite_range_addDensity finite_range_new_solver)
  have "\<exists>S'. step (addDensity ?S0 2 2 150) 10 (1/100) = Inr S'
          \<and> wf_solver S' \<and> nonneg_field (density S') \<and> nonneg_field (s S')"
    by (rule density_stays_nonneg [OF w n m _ _ _ f]) (simp_all add: a new_solver_simps)
  with w n m f show ?thesis by blast
qed

subsection \<open>Reading a buffer cell by cell\<close>

lemma IX_grid: "0 \<le> i \<Longrightarrow> i \<le> N + 1 \<Longrightarrow> 0 \<le> j \<Longrightarrow> j \<le> N + 1 \<Longrightarrow> IX N i j = i + (N + 2) * j"
  by (simp add: IX_def Let_def)

lemma IX_inj:
  assumes "0 \<le> i" "i \<le> N + 1" "0 \<le> j" "j \<le> N + 1"
    and "0 \<le> i'" "i' \<le> N + 1" "0 \<le> j'" "j' \<le> N + 1"
    and eq: "IX N i j = IX N i' j'"
  shows "i = i' \<and> j = j'"
proof -
  have e: "i + (N + 2) * j = i' + (N + 2) * j'"
    using eq assms(1-8) by (simp add: IX_grid)
  then have "(i + (N + 2) * j) mod (N + 2) = (i' + (N + 2) * j') mod (N + 2)" by simp
  then have i: "i = i'" using assms(1,2,5,6) by simp
  with e have "(N + 2) * j = (N + 2) * j'" by simp
  moreover have "N + 2 \<noteq> 0" using assms(1,2) by simp
  ultimately have "j = j'" by simp
  with i show ?thesis by simp
qed

lemma rd_wr:
  assumes "wf_field N x"
    and "0 \<le> i" "i \<le> N + 1" "0 \<le> j" "j \<le> N + 1"
    and "0 \<le> i'" "i' \<le> N + 1" "0 \<le> j'" "j' \<le> N + 1"
  shows "rd N (wr N x i j v) i' j' = (if i = i' \<and> j = j' then v else rd N x i' j')"
proof (cases "i = i' \<and> j = j'")
  case True
  then show ?thesis using IX_in_field [OF assms(1), of i j] by (simp add: rd_def wr_def)
next
  case False
  then have "IX N i j \<noteq> IX N i' j'" using IX_inj [OF assms(2-9)] by blast
  then have "nat (IX N i j) \<noteq> nat (IX N i' j')"
    using IX_nonneg [of N i j] IX_nonneg [of N i' j'] by simp
  with False show ?thesis by (auto simp: rd_def wr_def)
qed

lemma field_ext:
  assumes "wf_field N x" "wf_field N y"
    and "\<And>i j. 0 \<le> i \<Longrightarrow> i \<le> N + 1 \<Longrightarrow> 0 \<le> j \<Longrightarrow> j \<le> N + 1 \<Longrightarrow> rd N x i j = rd N y i j"
  shows "x = y"
proof (rule nth_equalityI)
  show "length x = length y" using assms(1,2) by (simp add: wf_field_def)
next
  fix k assume k: "k < length x"
  have N: "0 \<le> N" using assms(1) by (simp add: wf_field_def)
  let ?i = "int k mod (N + 2)" and ?j = "int k div (N + 2)"
  have kk: "int k < (N + 2) * (N + 2)" using k assms(1) by (simp add: wf_field_def)
  have "0 \<le> ?i" "?i < N + 2" using N by simp_all
  then have i: "0 \<le> ?i" "?i \<le> N + 1" by simp_all
  have j0: "0 \<le> ?j" using N by (simp add: pos_imp_zdiv_nonneg_iff)
  have "?j < N + 2"
  proof (rule ccontr)
    assume "\<not> ?j < N + 2"
    then have "N + 2 \<le> ?j" by simp
    then have "(N + 2) * (N + 2) \<le> (N + 2) * ?j" using N by (intro mult_left_mono) simp_all
    also have "\<dots> \<le> (N + 2) * ?j + ?i" using i(1) by linarith
    also have "\<dots> = int k" by simp
    finally show False using kk by simp
  qed
  then have j: "?j \<le> N + 1" by simp
  have "IX N ?i ?j = int k" using i j0 j by (simp add: IX_grid)
  then have "nat (IX N ?i ?j) = k" by simp
  then show "x ! k = y ! k" using assms(3) [OF i j0 j] by (simp add: rd_def)
qed

lemma wf_fold_wr:
  "wf_field N (fold (\<lambda>i x. wr N x i j (g i x)) is x) = wf_field N x"
  by (induction "is" arbitrary: x) (simp_all add: wf_field_wr)

lemma rd_fold_row:
  assumes "wf_field N x" "distinct is" "set is \<subseteq> {0..N + 1}" "0 \<le> j" "j \<le> N + 1"
    and "0 \<le> i'" "i' \<le> N + 1" "0 \<le> j'" "j' \<le> N + 1"
  shows "rd N (fold (\<lambda>i x. wr N x i j (h i (rd N x i j))) is x) i' j'
       = (if j' = j \<and> i' \<in> set is then h i' (rd N x i' j') else rd N x i' j')"
  using assms(1-3)
proof (induction "is" arbitrary: x)
  case Nil
  then show ?case by simp
next
  case (Cons a as)
  let ?x' = "wr N x a j (h a (rd N x a j))"
  have a: "0 \<le> a" "a \<le> N + 1" using Cons.prems(3) by simp_all
  have w: "wf_field N ?x'" using Cons.prems(1) by (simp add: wf_field_wr)
  have r: "rd N ?x' i' j' = (if a = i' \<and> j = j' then h a (rd N x a j) else rd N x i' j')"
    by (rule rd_wr [OF Cons.prems(1) a assms(4,5) assms(6-9)])
  have "rd N (fold (\<lambda>i x. wr N x i j (h i (rd N x i j))) as ?x') i' j'
       = (if j' = j \<and> i' \<in> set as then h i' (rd N ?x' i' j') else rd N ?x' i' j')"
    using Cons.IH [OF w] Cons.prems(2,3) by simp
  then show ?case using r Cons.prems(2) by auto
qed

lemma rd_fold_rows:
  assumes "wf_field N x" "distinct is" "set is \<subseteq> {0..N + 1}"
    "distinct js" "set js \<subseteq> {0..N + 1}"
    and "0 \<le> i'" "i' \<le> N + 1" "0 \<le> j'" "j' \<le> N + 1"
  shows "rd N (fold (\<lambda>j. fold (\<lambda>i x. wr N x i j (h i j (rd N x i j))) is) js x) i' j'
       = (if j' \<in> set js \<and> i' \<in> set is then h i' j' (rd N x i' j') else rd N x i' j')"
  using assms(1,4,5)
proof (induction js arbitrary: x)
  case Nil
  then show ?case by simp
next
  case (Cons b bs)
  let ?x' = "fold (\<lambda>i x. wr N x i b (h i b (rd N x i b))) is x"
  have b: "0 \<le> b" "b \<le> N + 1" using Cons.prems(3) by simp_all
  have w: "wf_field N ?x'" using Cons.prems(1) by (simp add: wf_fold_wr)
  have r: "rd N ?x' i' j' = (if j' = b \<and> i' \<in> set is then h i' b (rd N x i' j') else rd N x i' j')"
    by (rule rd_fold_row [OF Cons.prems(1) assms(2,3) b assms(6-9)])
  have "rd N (fold (\<lambda>j. fold (\<lambda>i x. wr N x i j (h i j (rd N x i j))) is) bs ?x') i' j'
       = (if j' \<in> set bs \<and> i' \<in> set is then h i' j' (rd N ?x' i' j') else rd N ?x' i' j')"
    using Cons.IH [OF w] Cons.prems(2,3) by simp
  then show ?case using r Cons.prems(2) by auto
qed

lemma wf_interior_map: "wf_field N (interior_map N h x) = wf_field N x"
  unfolding interior_map_def
  by (rule fold_inv [where I = "\<lambda>y. wf_field N y = wf_field N x"]) (simp_all add: wf_fold_wr)

lemma rd_interior_map:
  assumes "wf_field N x" "0 \<le> i" "i \<le> N + 1" "0 \<le> j" "j \<le> N + 1"
  shows "rd N (interior_map N h x) i j
       = (if 1 \<le> i \<and> i \<le> N \<and> 1 \<le> j \<and> j \<le> N then h i j (rd N x i j) else rd N x i j)"
proof -
  have "rd N (interior_map N h x) i j
       = (if j \<in> set [1..N] \<and> i \<in> set [1..N] then h i j (rd N x i j) else rd N x i j)"
    unfolding interior_map_def
    by (rule rd_fold_rows [OF assms(1) _ _ _ _ assms(2-5)]) auto
  then show ?thesis by auto
qed

subsection \<open>The boundary handler, cell by cell\<close>

lemma wf_set_bnd_col: "wf_field N (set_bnd_col N b a x) = wf_field N x"
  by (simp add: set_bnd_col_def Let_def wf_field_wr)

lemma wf_set_bnd_row: "wf_field N (set_bnd_row N b a x) = wf_field N x"
  by (simp add: set_bnd_row_def Let_def wf_field_wr)

lemma rd_set_bnd_col:
  assumes "wf_field N x" "1 \<le> N" "1 \<le> a" "a \<le> N"
    and "0 \<le> i" "i \<le> N + 1" "0 \<le> j" "j \<le> N + 1"
  shows "rd N (set_bnd_col N b a x) i j
       = (if i = a \<and> j = 0 then mirror (b = 2) (rd N x a 1)
          else if i = a \<and> j = N + 1 then mirror (b = 2) (rd N x a N)
          else rd N x i j)"
  using assms by (simp add: set_bnd_col_def Let_def rd_wr wf_field_wr mirror_def)

lemma rd_set_bnd_row:
  assumes "wf_field N x" "1 \<le> N" "1 \<le> a" "a \<le> N"
    and "0 \<le> i" "i \<le> N + 1" "0 \<le> j" "j \<le> N + 1"
  shows "rd N (set_bnd_row N b a x) i j
       = (if j = a \<and> i = 0 then mirror (b = 1) (rd N x 1 a)
          else if j = a \<and> i = N + 1 then mirror (b = 1) (rd N x N a)
          else rd N x i j)"
  using assms by (simp add: set_bnd_row_def Let_def rd_wr wf_field_wr mirror_def)

lemma rd_fold_set_bnd_col:
  assumes "wf_field N x" "1 \<le> N" "set is \<subseteq> {1..N}"
    and "0 \<le> i" "i \<le> N + 1" "0 \<le> j" "j \<le> N + 1"
  shows "rd N (fold (set_bnd_col N b) is x) i j
       = (if i \<in> set is \<and> j = 0 then mirror (b = 2) (rd N x i 1)
          else if i \<in> set is \<and> j = N + 1 then mirror (b = 2) (rd N x i N)
          else rd N x i j)"
  using assms(1,3)
proof (induction "is" arbitrary: x)
  case Nil
  then show ?case by simp
next
  case (Cons a as)
  let ?x' = "set_bnd_col N b a x"
  have a: "1 \<le> a" "a \<le> N" using Cons.prems(2) by simp_all
  have w: "wf_field N ?x'" using Cons.prems(1) by (simp add: wf_set_bnd_col)
  note r = rd_set_bnd_col [OF Cons.prems(1) assms(2) a, of _ _ b]
  have r1: "rd N ?x' i 1 = rd N x i 1" using r [of i 1] assms(2,4,5) by simp
  have rN: "rd N ?x' i N = rd N x i N" using r [of i N] assms(2,4,5) by simp
  have rr: "rd N ?x' i j
       = (if i = a \<and> j = 0 then mirror (b = 2) (rd N x a 1)
          else if i = a \<and> j = N + 1 then mirror (b = 2) (rd N x a N)
          else rd N x i j)"
    by (rule r [OF assms(4-7)])
  have "rd N (fold (set_bnd_col N b) as ?x') i j
       = (if i \<in> set as \<and> j = 0 then mirror (b = 2) (rd N ?x' i 1)
          else if i \<in> set as \<and> j = N + 1 then mirror (b = 2) (rd N ?x' i N)
          else rd N ?x' i j)"
    using Cons.IH [OF w] Cons.prems(2) by simp
  then show ?case unfolding r1 rN rr by auto
qed

lemma rd_fold_set_bnd_row:
  assumes "wf_field N x" "1 \<le> N" "set js \<subseteq> {1..N}"
    and "0 \<le> i" "i \<le> N + 1" "0 \<le> j" "j \<le> N + 1"
  shows "rd N (fold (set_bnd_row N b) js x) i j
       = (if j \<in> set js \<and> i = 0 then mirror (b = 1) (rd N x 1 j)
          else if j \<in> set js \<and> i = N + 1 then mirror (b = 1) (rd N x N j)
          else rd N x i j)"
  using assms(1,3)
proof (induction js arbitrary: x)
  case Nil
  then show ?case by simp
next
  case (Cons a as)
  let ?x' = "set_bnd_row N b a x"
  have a: "1 \<le> a" "a \<le> N" using Cons.prems(2) by simp_all
  have w: "wf_field N ?x'" using Cons.prems(1) by (simp add: wf_set_bnd_row)
  note r = rd_set_bnd_row [OF Cons.prems(1) assms(2) a, of _ _ b]
  have r1: "rd N ?x' 1 j = rd N x 1 j" using r [of 1 j] assms(2,6,7) by simp
  have rN: "rd N ?x' N j = rd N x N j" using r [of N j] assms(2,6,7) by simp
  have rr: "rd N ?x' i j
       = (if j = a \<and> i = 0 then mirror (b = 1) (rd N x 1 a)
          else if j = a \<and> i = N + 1 then mirror (b = 1) (rd N x N a)
          else rd N x i j)"
    by (rule r [OF assms(4-7)])
  have "rd N (fold (set_bnd_row N b) as ?x') i j
       = (if j \<in> set as \<and> i = 0 then mirror (b = 1) (rd N ?x' 1 j)
          else if j \<in> set as \<and> i = N + 1 then mirror (b = 1) (rd N ?x' N j)
          else rd N ?x' i j)"
    using Cons.IH [OF w] Cons.prems(2) by simp
  then show ?case unfolding r1 rN rr by auto
qed

lemma wf_set_bnd_corners: "wf_field N (set_bnd_corners N x) = wf_field N x"
  by (simp add: set_bnd_corners_def Let_def wf_field_wr)

lemma rd_set_bnd_corners:
  assumes "wf_field N x" "1 \<le> N" "0 \<le> i" "i \<le> N + 1" "0 \<le> j" "j \<le> N + 1"
  shows "rd N (set_bnd_corners N x) i j
       = (if i = 0 \<and> j = 0 then 0.5 * (rd N x 1 0 + rd N x 0 1)
          else if i = 0 \<and> j = N + 1 then 0.5 * (rd N x 1 (N + 1) + rd N x 0 N)
          else if i = N + 1 \<and> j = 0 then 0.5 * (rd N x N 0 + rd N x (N + 1) 1)
          else if i = N + 1 \<and> j = N + 1 then 0.5 * (rd N x N (N + 1) + rd N x (N + 1) N)
          else rd N x i j)"
  using assms by (simp add: set_bnd_corners_def Let_def rd_wr wf_field_wr)

lemma rd_set_bnd_edges:
  assumes "wf_field N x" "1 \<le> N" "0 \<le> i" "i \<le> N + 1" "0 \<le> j" "j \<le> N + 1"
  shows "rd N (fold (set_bnd_row N b) [1..N] (fold (set_bnd_col N b) [1..N] x)) i j
       = (if 1 \<le> j \<and> j \<le> N \<and> i = 0 then mirror (b = 1) (rd N x 1 j)
          else if 1 \<le> j \<and> j \<le> N \<and> i = N + 1 then mirror (b = 1) (rd N x N j)
          else if 1 \<le> i \<and> i \<le> N \<and> j = 0 then mirror (b = 2) (rd N x i 1)
          else if 1 \<le> i \<and> i \<le> N \<and> j = N + 1 then mirror (b = 2) (rd N x i N)
          else rd N x i j)"
proof -
  let ?y = "fold (set_bnd_col N b) [1..N] x"
  have wy: "wf_field N ?y"
    by (rule fold_inv [where I = "wf_field N"]) (simp_all add: assms(1) wf_set_bnd_col)
  have c: "\<And>i j. 0 \<le> i \<Longrightarrow> i \<le> N + 1 \<Longrightarrow> 0 \<le> j \<Longrightarrow> j \<le> N + 1 \<Longrightarrow>
      rd N ?y i j
       = (if 1 \<le> i \<and> i \<le> N \<and> j = 0 then mirror (b = 2) (rd N x i 1)
          else if 1 \<le> i \<and> i \<le> N \<and> j = N + 1 then mirror (b = 2) (rd N x i N)
          else rd N x i j)"
    using rd_fold_set_bnd_col [OF assms(1,2), of "[1..N]" _ _ b] by simp
  have "rd N (fold (set_bnd_row N b) [1..N] ?y) i j
       = (if 1 \<le> j \<and> j \<le> N \<and> i = 0 then mirror (b = 1) (rd N ?y 1 j)
          else if 1 \<le> j \<and> j \<le> N \<and> i = N + 1 then mirror (b = 1) (rd N ?y N j)
          else rd N ?y i j)"
    using rd_fold_set_bnd_row [OF wy assms(2), of "[1..N]" i j b] assms(3-6) by simp
  note r = this
  show ?thesis
  proof (cases "1 \<le> j \<and> j \<le> N")
    case True
    then have j1: "1 \<le> j" and jN: "j \<le> N" by simp_all
    have y1: "rd N ?y 1 j = rd N x 1 j" "rd N ?y N j = rd N x N j" "rd N ?y i j = rd N x i j"
      using c [of 1 j] c [of N j] c [OF assms(3-6)] j1 jN assms(2) by simp_all
    have g: "(1 \<le> i \<and> i \<le> N \<and> j = 0) = False" "(1 \<le> i \<and> i \<le> N \<and> j = N + 1) = False"
      using j1 jN by simp_all
    show ?thesis unfolding r y1 by (simp only: g if_False)
  next
    case False
    then have f: "(1 \<le> j \<and> j \<le> N \<and> i = 0) = False" "(1 \<le> j \<and> j \<le> N \<and> i = N + 1) = False"
      by auto
    show ?thesis unfolding r c [OF assms(3-6)] by (simp only: f if_False)
  qed
qed

lemma wf_set_bnd: "wf_field N (set_bnd N b x) = wf_field N x"
proof -
  have "wf_field N (fold (set_bnd_col N b) [1..N] x) = wf_field N x"
    by (rule fold_inv [where I = "\<lambda>y. wf_field N y = wf_field N x"]) (simp_all add: wf_set_bnd_col)
  moreover have "wf_field N (fold (set_bnd_row N b) [1..N] (fold (set_bnd_col N b) [1..N] x))
      = wf_field N (fold (set_bnd_col N b) [1..N] x)"
    by (rule fold_inv [where I = "\<lambda>y. wf_field N y = wf_field N (fold (set_bnd_col N b) [1..N] x)"])
      (simp_all add: wf_set_bnd_row)
  ultimately show ?thesis by (simp add: set_bnd_def wf_set_bnd_corners)
qed

lemma rd_set_bnd:
  assumes "wf_field N x" "1 \<le> N" "0 \<le> i" "i \<le> N + 1" "0 \<le> j" "j \<le> N + 1"
  shows "rd N (set_bnd N b x) i j
       = (if 1 \<le> i \<and> i \<le> N
          then (if j = 0 then mirror (b = 2) (rd N x i 1)
                else if j = N + 1 then mirror (b = 2) (rd N x i N)
                else rd N x i j)
          else if 1 \<le> j \<and> j \<le> N
          then (if i = 0 then mirror (b = 1) (rd N x 1 j)
                else mirror (b = 1) (rd N x N j))
          else if i = 0 \<and> j = 0
          then 0.5 * (mirror (b = 2) (rd N x 1 1)
                      + mirror (b = 1) (rd N x 1 1))
          else if i = 0
          then 0.5 * (mirror (b = 2) (rd N x 1 N)
                      + mirror (b = 1) (rd N x 1 N))
          else if j = 0
          then 0.5 * (mirror (b = 2) (rd N x N 1)
                      + mirror (b = 1) (rd N x N 1))
          else 0.5 * (mirror (b = 2) (rd N x N N)
                      + mirror (b = 1) (rd N x N N)))"
proof -
  let ?y = "fold (set_bnd_row N b) [1..N] (fold (set_bnd_col N b) [1..N] x)"
  have wy: "wf_field N ?y"
    using wf_set_bnd [of N b x] assms(1) by (simp add: set_bnd_def wf_set_bnd_corners)
  note e = rd_set_bnd_edges [OF assms(1,2), of _ _ b]
  have e1: "rd N ?y 1 0 = mirror (b = 2) (rd N x 1 1)"
    "rd N ?y 0 1 = mirror (b = 1) (rd N x 1 1)"
    "rd N ?y 1 (N + 1) = mirror (b = 2) (rd N x 1 N)"
    "rd N ?y 0 N = mirror (b = 1) (rd N x 1 N)"
    "rd N ?y N 0 = mirror (b = 2) (rd N x N 1)"
    "rd N ?y (N + 1) 1 = mirror (b = 1) (rd N x N 1)"
    "rd N ?y N (N + 1) = mirror (b = 2) (rd N x N N)"
    "rd N ?y (N + 1) N = mirror (b = 1) (rd N x N N)"
    using e [of 1 0] e [of 0 1] e [of 1 "N + 1"] e [of 0 N] e [of N 0] e [of "N + 1" 1]
      e [of N "N + 1"] e [of "N + 1" N] assms(2)
    by simp_all
  have "rd N (set_bnd N b x) i j
       = (if i = 0 \<and> j = 0 then 0.5 * (rd N ?y 1 0 + rd N ?y 0 1)
          else if i = 0 \<and> j = N + 1 then 0.5 * (rd N ?y 1 (N + 1) + rd N ?y 0 N)
          else if i = N + 1 \<and> j = 0 then 0.5 * (rd N ?y N 0 + rd N ?y (N + 1) 1)
          else if i = N + 1 \<and> j = N + 1 then 0.5 * (rd N ?y N (N + 1) + rd N ?y (N + 1) N)
          else rd N ?y i j)"
    unfolding set_bnd_def by (rule rd_set_bnd_corners [OF wy assms(2-6)])
  note r = this [unfolded e1]
  consider (c00) "i = 0 \<and> j = 0" | (c0N) "i = 0 \<and> j = N + 1"
    | (cN0) "i = N + 1 \<and> j = 0" | (cNN) "i = N + 1 \<and> j = N + 1"
    | (edge) "(1 \<le> i \<and> i \<le> N) \<or> (1 \<le> j \<and> j \<le> N)"
    using assms(3-6) by linarith
  then show ?thesis
  proof cases
    case c00
    then have ij: "i = 0" "j = 0" by simp_all
    show ?thesis unfolding r unfolding ij using assms(2) by simp
  next
    case c0N
    then have ij: "i = 0" "j = N + 1" by simp_all
    show ?thesis unfolding r unfolding ij using assms(2) by simp
  next
    case cN0
    then have ij: "i = N + 1" "j = 0" by simp_all
    show ?thesis unfolding r unfolding ij using assms(2) by simp
  next
    case cNN
    then have ij: "i = N + 1" "j = N + 1" by simp_all
    show ?thesis unfolding r unfolding ij using assms(2) by simp
  next
    case edge
    then have f: "(i = 0 \<and> j = 0) = False" "(i = 0 \<and> j = N + 1) = False"
      "(i = N + 1 \<and> j = 0) = False" "(i = N + 1 \<and> j = N + 1) = False"
      using assms(2) by auto
    have y: "rd N (set_bnd N b x) i j = rd N ?y i j"
      unfolding r by (simp only: f if_False)
    show ?thesis
    proof (cases "1 \<le> i \<and> i \<le> N")
      case True
      then have g: "(1 \<le> j \<and> j \<le> N \<and> i = 0) = False" "(1 \<le> j \<and> j \<le> N \<and> i = N + 1) = False"
        by simp_all
      show ?thesis unfolding y e [OF assms(3-6)] using True by (simp add: g)
    next
      case False
      with edge have j: "1 \<le> j" "j \<le> N" by simp_all
      from False assms(3,4) have i: "i = 0 \<or> i = N + 1" by linarith
      show ?thesis unfolding y e [OF assms(3-6)] using False j i assms(2) by auto
    qed
  qed
qed

lemma set_bnd_policy:
  assumes "1 \<le> N" "wf_field N x"
  shows "boundary_policy N b (set_bnd N b x)"
    and "\<forall>i\<in>{1..N}. \<forall>j\<in>{1..N}. rd N (set_bnd N b x) i j = rd N x i j"
proof -
  note R = rd_set_bnd [OF assms(2,1), of _ _ b]
  have top: "rd N (set_bnd N b x) i 0 = mirror (b = 2) (rd N (set_bnd N b x) i 1)"
    if "1 \<le> i" "i \<le> N" for i
    using R [of i 0] R [of i 1] that assms(1) by simp
  have bot: "rd N (set_bnd N b x) i (N + 1) = mirror (b = 2) (rd N (set_bnd N b x) i N)"
    if "1 \<le> i" "i \<le> N" for i
    using R [of i "N + 1"] R [of i N] that assms(1) by simp
  have left: "rd N (set_bnd N b x) 0 j = mirror (b = 1) (rd N (set_bnd N b x) 1 j)"
    if "1 \<le> j" "j \<le> N" for j
    using R [of 0 j] R [of 1 j] that assms(1) by simp
  have right: "rd N (set_bnd N b x) (N + 1) j = mirror (b = 1) (rd N (set_bnd N b x) N j)"
    if "1 \<le> j" "j \<le> N" for j
    using R [of "N + 1" j] R [of N j] that assms(1) by simp
  have c00: "rd N (set_bnd N b x) 0 0
      = 0.5 * (rd N (set_bnd N b x) 1 0 + rd N (set_bnd N b x) 0 1)"
    using R [of 0 0] R [of 1 0] R [of 0 1] assms(1) by simp
  have c0N: "rd N (set_bnd N b x) 0 (N + 1)
      = 0.5 * (rd N (set_bnd N b x) 1 (N + 1) + rd N (set_bnd N b x) 0 N)"
    using R [of 0 "N + 1"] R [of 1 "N + 1"] R [of 0 N] assms(1) by simp
  have cN0: "rd N (set_bnd N b x) (N + 1) 0
      = 0.5 * (rd N (set_bnd N b x) N 0 + rd N (set_bnd N b x) (N + 1) 1)"
    using R [of "N + 1" 0] R [of N 0] R [of "N + 1" 1] assms(1) by simp
  have cNN: "rd N (set_bnd N b x) (N + 1) (N + 1)
      = 0.5 * (rd N (set_bnd N b x) N (N + 1) + rd N (set_bnd N b x) (N + 1) N)"
    using R [of "N + 1" "N + 1"] R [of N "N + 1"] R [of "N + 1" N] assms(1) by simp
  show "boundary_policy N b (set_bnd N b x)"
    unfolding boundary_policy_def
    using top bot left right c00 c0N cN0 cNN by (simp add: mirror_def)
  show "\<forall>i\<in>{1..N}. \<forall>j\<in>{1..N}. rd N (set_bnd N b x) i j = rd N x i j"
    using R by simp
qed

subsection \<open>Boundary policy\<close>

text \<open>
  Claim C6. On a grid with at least one interior cell per axis, after \<open>set_bnd\<close> the field
  satisfies the boundary policy of its kind: for the velocity along x (\<open>b = 1\<close>) the left and
  right columns are the negated neighbouring interior columns, for the velocity along y
  (\<open>b = 2\<close>) the top and bottom rows are the negated neighbouring interior rows, every other
  edge cell (all of them for a scalar field) is a copy of its interior neighbour, and every
  corner is the average of its two neighbouring edge cells. The interior is unchanged.
\<close>

theorem set_bnd_boundary_policy:
  assumes "1 \<le> N" "wf_field N x"
  shows "boundary_policy N b (set_bnd N b x)
       \<and> (\<forall>i\<in>{1..N}. \<forall>j\<in>{1..N}. rd N (set_bnd N b x) i j = rd N x i j)
       \<and> wf_field N (set_bnd N b x)"
  using set_bnd_policy [OF assms, of b] assms(2) by (simp add: wf_set_bnd)

theorem set_bnd_boundary_policy_witness:
  "(1::int) \<le> 1 \<and> wf_field 1 [1, 2, 3, 4, 5, 6, 7, 8, 9]
   \<and> boundary_policy 1 1 (set_bnd 1 1 [1, 2, 3, 4, 5, 6, 7, 8, 9])
   \<and> wf_field 1 (set_bnd 1 1 [1, 2, 3, 4, 5, 6, 7, 8, 9])"
  using set_bnd_boundary_policy [of 1 "[1, 2, 3, 4, 5, 6, 7, 8, 9]" 1]
  by (simp add: wf_field_def)

subsection \<open>Projection\<close>

lemma fold_pair:
  "fold (\<lambda>i w. case w of (u, v) \<Rightarrow> (F i u, G i v)) is (u, v) = (fold F is u, fold G is v)"
  by (induction "is" arbitrary: u v) simp_all

lemma fold2_pair:
  "fold (\<lambda>j. fold (\<lambda>i w. case w of (u, v) \<Rightarrow> (F j i u, G j i v)) is) js (u, v)
     = (fold (\<lambda>j. fold (F j) is) js u, fold (\<lambda>j. fold (G j) is) js v)"
  by (induction js arbitrary: u v) (simp_all add: fold_pair)

lemma project_div_loop:
  "fold (\<lambda>j. fold (project_div_cell N velocX velocY j) [1..N]) [1..N] (div', p)
     = (interior_map N (\<lambda>i j v. spec_divergence N velocX velocY i j) div',
        interior_map N (\<lambda>i j v. 0) p)"
proof -
  have "project_div_cell N velocX velocY
      = (\<lambda>j i w. case w of (u, v) \<Rightarrow>
           (wr N u i j (spec_divergence N velocX velocY i j), wr N v i j 0))"
    by (intro ext) (simp add: project_div_cell_def spec_divergence_def add_diff_eq split: prod.splits)
  then show ?thesis
    by (simp add: interior_map_def
        fold2_pair [where F = "\<lambda>j i u. wr N u i j (spec_divergence N velocX velocY i j)"
          and G = "\<lambda>j i v. wr N v i j 0"])
qed

lemma project_grad_loop:
  "fold (\<lambda>j. fold (project_grad_cell N p j) [1..N]) [1..N] (velocX, velocY)
     = (interior_map N (\<lambda>i j v. v - spec_gradient_x N p i j) velocX,
        interior_map N (\<lambda>i j v. v - spec_gradient_y N p i j) velocY)"
proof -
  have "project_grad_cell N p
      = (\<lambda>j i w. case w of (u, v) \<Rightarrow>
           (wr N u i j (rd N u i j - spec_gradient_x N p i j),
            wr N v i j (rd N v i j - spec_gradient_y N p i j)))"
    by (intro ext)
      (simp add: project_grad_cell_def spec_gradient_x_def spec_gradient_y_def split: prod.splits)
  then show ?thesis
    by (simp add: interior_map_def
        fold2_pair [where F = "\<lambda>j i u. wr N u i j (rd N u i j - spec_gradient_x N p i j)"
          and G = "\<lambda>j i v. wr N v i j (rd N v i j - spec_gradient_y N p i j)"])
qed

lemma rd_replicate: "0 \<le> N \<Longrightarrow> rd N (replicate (nat ((N + 2) * (N + 2))) v) i j = v"
  using IX_upper [of N i j] IX_nonneg [of N i j] by (simp add: rd_def)

lemma wf_replicate: "0 \<le> N \<Longrightarrow> wf_field N (replicate (nat ((N + 2) * (N + 2))) v)"
  by (simp add: wf_field_def)

lemma pressure_cleared:
  assumes "1 \<le> N" "wf_field N p"
  shows "set_bnd N 0 (interior_map N (\<lambda>i j v. 0) p) = replicate (nat ((N + 2) * (N + 2))) 0"
proof (rule field_ext [of N])
  let ?q = "interior_map N (\<lambda>i j v. 0) p"
  have wq: "wf_field N ?q" using assms(2) by (simp add: wf_interior_map)
  show "wf_field N (set_bnd N 0 ?q)" using wq by (simp add: wf_set_bnd)
  show "wf_field N (replicate (nat ((N + 2) * (N + 2))) 0)"
    using assms(1) by (simp add: wf_replicate)
  fix i j assume ij: "0 \<le> i" "i \<le> N + 1" "0 \<le> j" "j \<le> N + 1"
  have q: "rd N ?q k l = 0" if "1 \<le> k" "k \<le> N" "1 \<le> l" "l \<le> N" for k l
    using rd_interior_map [OF assms(2), of k l "\<lambda>i j v. 0"] that by simp
  have q1: "rd N ?q 1 1 = 0" "rd N ?q 1 N = 0" "rd N ?q N 1 = 0" "rd N ?q N N = 0"
    using q [of 1 1] q [of 1 N] q [of N 1] q [of N N] assms(1) by simp_all
  have "rd N (set_bnd N 0 ?q) i j = 0"
    unfolding rd_set_bnd [OF wq assms(1) ij]
    using q [of i 1] q [of i N] q [of 1 j] q [of N j] q [of i j] q1 assms(1) ij
    by (auto simp: mirror_def)
  then show "rd N (set_bnd N 0 ?q) i j = rd N (replicate (nat ((N + 2) * (N + 2))) 0) i j"
    using assms(1) by (simp add: rd_replicate)
qed

lemma wf_lin_solve_sweep: "wf_field N (lin_solve_sweep N b x0 a c x) = wf_field N x"
proof -
  have "wf_field N (fold (\<lambda>j. fold (lin_solve_cell N x0 a c j) [1..N]) [1..N] x) = wf_field N x"
    by (intro fold_inv [where I = "\<lambda>y. wf_field N y = wf_field N x"])
      (simp_all add: lin_solve_cell_def wf_field_wr)
  then show ?thesis by (simp add: lin_solve_sweep_def wf_set_bnd)
qed

lemma wf_lin_solve_loop: "wf_field N (lin_solve_loop k N b x0 a c x) = wf_field N x"
  by (induction k arbitrary: x) (simp_all add: wf_lin_solve_sweep)

lemma lin_solve_loop_policy:
  assumes "1 \<le> N"
  shows "wf_field N x \<Longrightarrow> boundary_policy N b x
    \<Longrightarrow> boundary_policy N b (lin_solve_loop k N b x0 a c x)"
proof (induction k arbitrary: x)
  case 0
  then show ?case by simp
next
  case (Suc k)
  let ?y = "fold (\<lambda>j. fold (lin_solve_cell N x0 a c j) [1..N]) [1..N] x"
  have wy: "wf_field N ?y"
    using wf_lin_solve_sweep [of N b x0 a c x] Suc.prems(1)
    by (simp add: lin_solve_sweep_def wf_set_bnd)
  have "boundary_policy N b (lin_solve_sweep N b x0 a c x)"
    unfolding lin_solve_sweep_def by (rule set_bnd_policy(1) [OF assms wy])
  then show ?case
    using Suc.IH [of "lin_solve_sweep N b x0 a c x"] Suc.prems(1)
    by (simp add: wf_lin_solve_sweep)
qed

lemma zero_policy:
  "0 \<le> N \<Longrightarrow> boundary_policy N b (replicate (nat ((N + 2) * (N + 2))) 0)"
  by (simp add: boundary_policy_def rd_replicate)

text \<open>
  The relaxation solver of the source is the relaxation of the specification: the boundary
  handler computes \<open>spec_boundary_handler\<close>, the two nested loops are the sweep over the
  interior cells row by row, and the product with the reciprocal is the division by \<open>c\<close>.
\<close>

lemma wf_spec_boundary_handler: "wf_field N (spec_boundary_handler N b x) = wf_field N x"
  by (simp add: wf_field_def spec_boundary_handler_def)

lemma rd_spec_boundary_handler:
  assumes "wf_field N x" "0 \<le> i" "i \<le> N + 1" "0 \<le> j" "j \<le> N + 1"
  shows "rd N (spec_boundary_handler N b x) i j = spec_boundary_cell N b x i j"
proof -
  have k: "nat (IX N i j) < length x" by (rule IX_in_field [OF assms(1)])
  have e: "IX N i j = i + (N + 2) * j" by (rule IX_grid [OF assms(2-5)])
  have nn: "0 \<le> IX N i j" by (rule IX_nonneg)
  have m: "int (nat (i + (N + 2) * j)) mod (N + 2) = i"
  proof -
    have "int (nat (i + (N + 2) * j)) = i + (N + 2) * j" using nn e by simp
    moreover have "(i + (N + 2) * j) mod (N + 2) = i" using assms(2,3) by simp
    ultimately show ?thesis by (simp only:)
  qed
  have d: "int (nat (i + (N + 2) * j)) div (N + 2) = j"
  proof -
    have "int (nat (i + (N + 2) * j)) = i + (N + 2) * j" using nn e by simp
    moreover have "(i + (N + 2) * j) div (N + 2) = j" using assms(2,3) by simp
    ultimately show ?thesis by (simp only:)
  qed
  have "spec_boundary_handler N b x ! nat (i + (N + 2) * j)
      = spec_boundary_cell N b x (int (nat (i + (N + 2) * j)) mod (N + 2))
          (int (nat (i + (N + 2) * j)) div (N + 2))"
    using k unfolding e spec_boundary_handler_def by (simp only: nth_map_upt length_upt) simp
  then show ?thesis
    unfolding rd_def e by (simp only: m d)
qed

lemma set_bnd_spec:
  assumes "1 \<le> N" "wf_field N x"
  shows "set_bnd N b x = spec_boundary_handler N b x"
proof (rule field_ext [of N])
  show "wf_field N (set_bnd N b x)" using assms(2) by (simp add: wf_set_bnd)
  show "wf_field N (spec_boundary_handler N b x)"
    using assms(2) by (simp add: wf_spec_boundary_handler)
  fix i j :: int
  assume ij: "0 \<le> i" "i \<le> N + 1" "0 \<le> j" "j \<le> N + 1"
  have "rd N (set_bnd N b x) i j = spec_boundary_cell N b x i j"
    unfolding rd_set_bnd [OF assms(2,1) ij]
    using assms(1) ij by (auto simp: spec_boundary_cell_def spec_edge_def mirror_def)
  then show "rd N (set_bnd N b x) i j = rd N (spec_boundary_handler N b x) i j"
    by (simp add: rd_spec_boundary_handler [OF assms(2) ij])
qed

lemma fold_concat_rows: "fold f (concat xss) x = fold (fold f) xss x"
  by (induction xss arbitrary: x) simp_all

lemma sweep_spec:
  "fold (\<lambda>j. fold (lin_solve_cell N x0 a (1 / c) j) [1..N]) [1..N] x
     = fold (spec_relax_cell N a c x0) (interior_cells N) x"
proof -
  have c: "(\<lambda>i. spec_relax_cell N a c x0 (i, j)) = lin_solve_cell N x0 a (1 / c) j" for j
    by (rule ext, rule ext) (simp add: spec_relax_cell_def lin_solve_cell_def)
  have "fold (spec_relax_cell N a c x0) (interior_cells N) x
      = fold (\<lambda>j. fold (\<lambda>i. spec_relax_cell N a c x0 (i, j)) [1..N]) [1..N] x"
    by (simp add: interior_cells_def fold_concat_rows fold_map comp_def)
  then show ?thesis by (simp only: c)
qed

lemma lin_solve_loop_spec:
  assumes "1 \<le> N"
  shows "wf_field N x \<Longrightarrow> lin_solve_loop k N b x0 a (1 / c) x = spec_relaxation k N b a c x0 x"
proof (induction k arbitrary: x)
  case 0
  then show ?case by simp
next
  case (Suc k)
  let ?y = "fold (\<lambda>j. fold (lin_solve_cell N x0 a (1 / c) j) [1..N]) [1..N] x"
  have wy: "wf_field N ?y"
    using wf_lin_solve_sweep [of N b x0 a "1 / c" x] Suc.prems
    by (simp add: lin_solve_sweep_def wf_set_bnd)
  have s: "lin_solve_sweep N b x0 a (1 / c) x
      = spec_boundary_handler N b (fold (spec_relax_cell N a c x0) (interior_cells N) x)"
    unfolding lin_solve_sweep_def set_bnd_spec [OF assms wy] by (simp only: sweep_spec)
  have w: "wf_field N (lin_solve_sweep N b x0 a (1 / c) x)"
    using Suc.prems by (simp add: wf_lin_solve_sweep)
  show ?case using Suc.IH [OF w] by (simp add: s)
qed

lemma rd_fold_outside:
  fixes g :: "int \<times> int \<Rightarrow> field \<Rightarrow> real"
  assumes "0 \<le> i" "i \<le> N + 1" "0 \<le> j" "j \<le> N + 1"
  shows "wf_field N y \<Longrightarrow> (i, j) \<notin> set cs
    \<Longrightarrow> \<forall>c\<in>set cs. 0 \<le> fst c \<and> fst c \<le> N + 1 \<and> 0 \<le> snd c \<and> snd c \<le> N + 1
    \<Longrightarrow> rd N (fold (\<lambda>c y. wr N y (fst c) (snd c) (g c y)) cs y) i j = rd N y i j"
proof (induction cs arbitrary: y)
  case Nil
  then show ?case by simp
next
  case (Cons c cs)
  let ?y' = "wr N y (fst c) (snd c) (g c y)"
  have w: "wf_field N ?y'" using Cons.prems(1) by (simp add: wf_field_wr)
  have c: "0 \<le> fst c" "fst c \<le> N + 1" "0 \<le> snd c" "snd c \<le> N + 1"
    using Cons.prems(3) by simp_all
  have ne: "\<not> (fst c = i \<and> snd c = j)" using Cons.prems(2) by auto
  have "rd N ?y' i j = rd N y i j"
    using rd_wr [OF Cons.prems(1) c assms, of "g c y"] ne by simp
  moreover have "rd N (fold (\<lambda>c y. wr N y (fst c) (snd c) (g c y)) cs ?y') i j = rd N ?y' i j"
    using Cons.IH [OF w] Cons.prems(2,3) by simp
  ultimately show ?case by simp
qed

lemma fold_fixed_point:
  fixes g :: "int \<times> int \<Rightarrow> field \<Rightarrow> real"
  shows "wf_field N x \<Longrightarrow> distinct cs
    \<Longrightarrow> \<forall>c\<in>set cs. 0 \<le> fst c \<and> fst c \<le> N + 1 \<and> 0 \<le> snd c \<and> snd c \<le> N + 1
    \<Longrightarrow> fold (\<lambda>c y. wr N y (fst c) (snd c) (g c y)) cs x = x
    \<Longrightarrow> \<forall>c\<in>set cs. g c x = rd N x (fst c) (snd c)"
proof (induction cs)
  case Nil
  then show ?case by simp
next
  case (Cons c cs)
  let ?x' = "wr N x (fst c) (snd c) (g c x)"
  have c: "0 \<le> fst c" "fst c \<le> N + 1" "0 \<le> snd c" "snd c \<le> N + 1"
    using Cons.prems(3) by simp_all
  have w: "wf_field N ?x'" using Cons.prems(1) by (simp add: wf_field_wr)
  have nin: "(fst c, snd c) \<notin> set cs" using Cons.prems(2) by simp
  have "rd N (fold (\<lambda>c y. wr N y (fst c) (snd c) (g c y)) cs ?x') (fst c) (snd c)
      = rd N ?x' (fst c) (snd c)"
    by (rule rd_fold_outside [OF c w nin]) (use Cons.prems(3) in simp)
  also have "\<dots> = g c x" using rd_wr [OF Cons.prems(1) c c, of "g c x"] by simp
  finally have v: "g c x = rd N x (fst c) (snd c)" using Cons.prems(4) by simp
  then have "?x' = x" by (simp add: wr_def rd_def)
  then have "fold (\<lambda>c y. wr N y (fst c) (snd c) (g c y)) cs x = x" using Cons.prems(4) by simp
  from Cons.IH [OF Cons.prems(1) _ _ this] Cons.prems(2,3) v show ?case by simp
qed

lemma interior_cells_set:
  "set (interior_cells N) = {c. 1 \<le> fst c \<and> fst c \<le> N \<and> 1 \<le> snd c \<and> snd c \<le> N}"
  by (auto simp: interior_cells_def)

lemma interior_cells_distinct: "distinct (interior_cells N)"
  unfolding interior_cells_def
  by (rule distinct_concat) (auto simp: distinct_map inj_on_def)

text \<open>
  A field that one more sweep leaves unchanged solves the linear system of the relaxation
  at every interior cell, and its boundary follows the policy.
\<close>

lemma relaxation_fixed_point:
  assumes "1 \<le> N" "wf_field N x" "c \<noteq> 0"
    and fp: "spec_relaxation 1 N b a c x0 x = x"
  shows "(\<forall>i\<in>{1..N}. \<forall>j\<in>{1..N}.
            c * rd N x i j
              - a * (rd N x (i + 1) j + rd N x (i - 1) j + rd N x i (j + 1) + rd N x i (j - 1))
            = rd N x0 i j)
       \<and> boundary_policy N b x"
proof -
  let ?g = "\<lambda>cell y. (rd N x0 (fst cell) (snd cell)
            + a * (rd N y (fst cell + 1) (snd cell) + rd N y (fst cell - 1) (snd cell)
                   + rd N y (fst cell) (snd cell + 1) + rd N y (fst cell) (snd cell - 1))) / c"
  let ?f = "\<lambda>c y. wr N y (fst c) (snd c) (?g c y)"
  let ?u = "fold ?f (interior_cells N) x"
  have f: "spec_relax_cell N a c x0 = ?f"
    by (rule ext, rule ext) (simp add: spec_relax_cell_def split: prod.splits)
  have wu: "wf_field N ?u"
    by (rule fold_inv [where I = "wf_field N"]) (simp_all add: assms(2) wf_field_wr)
  have grid: "\<forall>c\<in>set (interior_cells N).
      0 \<le> fst c \<and> fst c \<le> N + 1 \<and> 0 \<le> snd c \<and> snd c \<le> N + 1"
    by (auto simp: interior_cells_set)
  have x: "set_bnd N b ?u = x"
    using fp by (simp add: f set_bnd_spec [OF assms(1) wu])
  have pol: "boundary_policy N b x"
    using set_bnd_policy(1) [OF assms(1) wu, of b] by (simp only: x)
  have "?u = x"
  proof (rule field_ext [OF wu assms(2)])
    fix i j :: int
    assume ij: "0 \<le> i" "i \<le> N + 1" "0 \<le> j" "j \<le> N + 1"
    show "rd N ?u i j = rd N x i j"
    proof (cases "1 \<le> i \<and> i \<le> N \<and> 1 \<le> j \<and> j \<le> N")
      case True
      then have "rd N (set_bnd N b ?u) i j = rd N ?u i j"
        using set_bnd_policy(2) [OF assms(1) wu, of b] by simp
      then show ?thesis by (simp only: x)
    next
      case False
      then have "(i, j) \<notin> set (interior_cells N)" by (auto simp: interior_cells_set)
      then show ?thesis using rd_fold_outside [OF ij assms(2) _ grid] by simp
    qed
  qed
  then have "\<forall>c\<in>set (interior_cells N). ?g c x = rd N x (fst c) (snd c)"
    using fold_fixed_point [OF assms(2) interior_cells_distinct grid, of ?g] by simp
  then have "\<forall>i\<in>{1..N}. \<forall>j\<in>{1..N}. ?g (i, j) x = rd N x i j"
    by (auto simp: interior_cells_set)
  then have "\<forall>i\<in>{1..N}. \<forall>j\<in>{1..N}.
            c * rd N x i j
              - a * (rd N x (i + 1) j + rd N x (i - 1) j + rd N x i (j + 1) + rd N x i (j - 1))
            = rd N x0 i j"
    using assms(3) by (auto simp: field_simps)
  with pol show ?thesis by simp
qed

text \<open>
  Claim C8. On a grid with at least one interior cell per axis, \<open>project\<close> returns four
  arrays such that: the divergence array holds \<open>spec_divergence\<close> at every interior cell and
  satisfies the scalar boundary policy; the pressure is what the relaxation of the
  specification (\<open>spec_relaxation\<close>: Gauss-Seidel sweeps of
  \<open>p[i,j] = (div[i,j] + 1 * (p[i+1,j] + p[i-1,j] + p[i,j+1] + p[i,j-1])) / 6\<close>, each followed
  by the boundary handler) computes in \<open>iter\<close> sweeps from the all-zero field, it is the
  result of \<open>lin_solve\<close> with \<open>a = 1\<close>, \<open>c = 6\<close>, and it satisfies the scalar boundary policy;
  each velocity component is, at every interior cell, its old value minus the pressure
  gradient, and satisfies the boundary policy of its kind. (By \<open>relaxation_fixed_point\<close> a
  pressure that a further sweep leaves unchanged solves the discrete Poisson equation
  \<open>6 * p[i,j] - (p[i+1,j] + p[i-1,j] + p[i,j+1] + p[i,j-1]) = div[i,j]\<close>.)
\<close>

theorem project_stages:
  assumes "1 \<le> N" "wf_field N velocX" "wf_field N velocY" "wf_field N p" "wf_field N div'"
  shows "\<exists>vX vY p' d'.
           project N velocX velocY p div' iter = Inr (vX, vY, p', d')
         \<and> (\<forall>i\<in>{1..N}. \<forall>j\<in>{1..N}. rd N d' i j = spec_divergence N velocX velocY i j)
         \<and> boundary_policy N 0 d'
         \<and> p' = spec_relaxation (nat iter) N 0 1 6 d' (replicate (nat ((N + 2) * (N + 2))) 0)
         \<and> lin_solve N 0 (replicate (nat ((N + 2) * (N + 2))) 0) d' 1 6 iter = Inr p'
         \<and> boundary_policy N 0 p'
         \<and> (\<forall>i\<in>{1..N}. \<forall>j\<in>{1..N}.
               rd N vX i j = rd N velocX i j - spec_gradient_x N p' i j
             \<and> rd N vY i j = rd N velocY i j - spec_gradient_y N p' i j)
         \<and> boundary_policy N 1 vX \<and> boundary_policy N 2 vY
         \<and> wf_field N vX \<and> wf_field N vY \<and> wf_field N p' \<and> wf_field N d'"
proof -
  let ?Z = "replicate (nat ((N + 2) * (N + 2))) (0::real)"
  let ?d1 = "interior_map N (\<lambda>i j v. spec_divergence N velocX velocY i j) div'"
  let ?d2 = "set_bnd N 0 ?d1"
  let ?p3 = "lin_solve_loop (nat iter) N 0 ?d2 1 (1 / 6) ?Z"
  let ?v1 = "interior_map N (\<lambda>i j v. v - spec_gradient_x N ?p3 i j) velocX"
  let ?v2 = "interior_map N (\<lambda>i j v. v - spec_gradient_y N ?p3 i j) velocY"
  have N0: "0 \<le> N" using assms(1) by simp
  have wd1: "wf_field N ?d1" using assms(5) by (simp add: wf_interior_map)
  have wd2: "wf_field N ?d2" using wd1 by (simp add: wf_set_bnd)
  have wZ: "wf_field N ?Z" by (rule wf_replicate [OF N0])
  have wp3: "wf_field N ?p3" using wZ by (simp add: wf_lin_solve_loop)
  have wv1: "wf_field N ?v1" "wf_field N ?v2" using assms(2,3) by (simp_all add: wf_interior_map)
  have ls: "lin_solve N 0 ?Z ?d2 1 6 iter = Inr ?p3" by (simp add: lin_solve_def)
  have sp: "?p3 = spec_relaxation (nat iter) N 0 1 6 ?d2 ?Z"
    by (rule lin_solve_loop_spec [OF assms(1) wZ])
  have pr: "project N velocX velocY p div' iter = Inr (set_bnd N 1 ?v1, set_bnd N 2 ?v2, ?p3, ?d2)"
    by (simp add: project_def Let_def project_div_loop pressure_cleared [OF assms(1,4)] ls
        project_grad_loop)
  have d: "\<forall>i\<in>{1..N}. \<forall>j\<in>{1..N}. rd N ?d2 i j = spec_divergence N velocX velocY i j"
    using set_bnd_policy(2) [OF assms(1) wd1, of 0] rd_interior_map [OF assms(5)] by simp
  have dp: "boundary_policy N 0 ?d2" by (rule set_bnd_policy(1) [OF assms(1) wd1])
  have pp: "boundary_policy N 0 ?p3"
    by (rule lin_solve_loop_policy [OF assms(1) wZ zero_policy [OF N0]])
  have v: "\<forall>i\<in>{1..N}. \<forall>j\<in>{1..N}.
               rd N (set_bnd N 1 ?v1) i j = rd N velocX i j - spec_gradient_x N ?p3 i j
             \<and> rd N (set_bnd N 2 ?v2) i j = rd N velocY i j - spec_gradient_y N ?p3 i j"
    using set_bnd_policy(2) [OF assms(1) wv1(1), of 1] set_bnd_policy(2) [OF assms(1) wv1(2), of 2]
      rd_interior_map [OF assms(2)] rd_interior_map [OF assms(3)] by simp
  have vp: "boundary_policy N 1 (set_bnd N 1 ?v1)" "boundary_policy N 2 (set_bnd N 2 ?v2)"
    by (rule set_bnd_policy(1) [OF assms(1) wv1(1)], rule set_bnd_policy(1) [OF assms(1) wv1(2)])
  have wv: "wf_field N (set_bnd N 1 ?v1)" "wf_field N (set_bnd N 2 ?v2)"
    using wv1 by (simp_all add: wf_set_bnd)
  show ?thesis
    using pr d dp sp ls pp v vp wv wp3 wd2 by blast
qed

theorem project_stages_witness:
  "(1::int) \<le> 1
   \<and> wf_field 1 [0, 0, 0, 1, 2, 3, 0, 0, 0] \<and> wf_field 1 [0, 4, 0, 0, 5, 0, 0, 6, 0]
   \<and> wf_field 1 [7, 7, 7, 7, 7, 7, 7, 7, 7] \<and> wf_field 1 [8, 8, 8, 8, 8, 8, 8, 8, 8]
   \<and> (\<exists>vX vY p' d'.
         project 1 [0, 0, 0, 1, 2, 3, 0, 0, 0] [0, 4, 0, 0, 5, 0, 0, 6, 0]
           [7, 7, 7, 7, 7, 7, 7, 7, 7] [8, 8, 8, 8, 8, 8, 8, 8, 8] 20 = Inr (vX, vY, p', d')
       \<and> rd 1 d' 1 1 = spec_divergence 1 [0, 0, 0, 1, 2, 3, 0, 0, 0] [0, 4, 0, 0, 5, 0, 0, 6, 0] 1 1
       \<and> p' = spec_relaxation 20 1 0 1 6 d' (replicate 9 0)
       \<and> boundary_policy 1 0 d' \<and> boundary_policy 1 0 p'
       \<and> boundary_policy 1 1 vX \<and> boundary_policy 1 2 vY)"
proof -
  have w: "wf_field 1 [0, 0, 0, 1, 2, 3, 0, 0, 0]" "wf_field 1 [0, 4, 0, 0, 5, 0, 0, 6, 0]"
    "wf_field 1 [7, 7, 7, 7, 7, 7, 7, 7, 7]" "wf_field 1 [8, 8, 8, 8, 8, 8, 8, 8, 8]"
    by (simp_all add: wf_field_def)
  from project_stages [OF _ w, of 20] w show ?thesis by fastforce
qed

subsection \<open>A tick in a fluid at rest\<close>

lemma rd_set_bnd_cases:
  assumes "wf_field N x" "1 \<le> N"
  shows "\<And>i j. 1 \<le> i \<Longrightarrow> i \<le> N \<Longrightarrow> 1 \<le> j \<Longrightarrow> j \<le> N \<Longrightarrow> rd N (set_bnd N b x) i j = rd N x i j"
    and "\<And>i. 1 \<le> i \<Longrightarrow> i \<le> N \<Longrightarrow> rd N (set_bnd N b x) i 0 = mirror (b = 2) (rd N x i 1)"
    and "\<And>i. 1 \<le> i \<Longrightarrow> i \<le> N \<Longrightarrow> rd N (set_bnd N b x) i (N + 1) = mirror (b = 2) (rd N x i N)"
    and "\<And>j. 1 \<le> j \<Longrightarrow> j \<le> N \<Longrightarrow> rd N (set_bnd N b x) 0 j = mirror (b = 1) (rd N x 1 j)"
    and "\<And>j. 1 \<le> j \<Longrightarrow> j \<le> N \<Longrightarrow> rd N (set_bnd N b x) (N + 1) j = mirror (b = 1) (rd N x N j)"
    and "rd N (set_bnd N b x) 0 0
          = 0.5 * (mirror (b = 2) (rd N x 1 1) + mirror (b = 1) (rd N x 1 1))"
    and "rd N (set_bnd N b x) 0 (N + 1)
          = 0.5 * (mirror (b = 2) (rd N x 1 N) + mirror (b = 1) (rd N x 1 N))"
    and "rd N (set_bnd N b x) (N + 1) 0
          = 0.5 * (mirror (b = 2) (rd N x N 1) + mirror (b = 1) (rd N x N 1))"
    and "rd N (set_bnd N b x) (N + 1) (N + 1)
          = 0.5 * (mirror (b = 2) (rd N x N N) + mirror (b = 1) (rd N x N N))"
proof -
  note R = rd_set_bnd [OF assms, of _ _ b]
  show "\<And>i j. 1 \<le> i \<Longrightarrow> i \<le> N \<Longrightarrow> 1 \<le> j \<Longrightarrow> j \<le> N \<Longrightarrow> rd N (set_bnd N b x) i j = rd N x i j"
    using R by simp
  show "\<And>i. 1 \<le> i \<Longrightarrow> i \<le> N \<Longrightarrow> rd N (set_bnd N b x) i 0 = mirror (b = 2) (rd N x i 1)"
    using R [of _ 0] assms(2) by simp
  show "\<And>i. 1 \<le> i \<Longrightarrow> i \<le> N \<Longrightarrow> rd N (set_bnd N b x) i (N + 1) = mirror (b = 2) (rd N x i N)"
    using R [of _ "N + 1"] assms(2) by simp
  show "\<And>j. 1 \<le> j \<Longrightarrow> j \<le> N \<Longrightarrow> rd N (set_bnd N b x) 0 j = mirror (b = 1) (rd N x 1 j)"
    using R [of 0] assms(2) by simp
  show "\<And>j. 1 \<le> j \<Longrightarrow> j \<le> N \<Longrightarrow> rd N (set_bnd N b x) (N + 1) j = mirror (b = 1) (rd N x N j)"
    using R [of "N + 1"] assms(2) by simp
  show "rd N (set_bnd N b x) 0 0
          = 0.5 * (mirror (b = 2) (rd N x 1 1) + mirror (b = 1) (rd N x 1 1))"
    using R [of 0 0] assms(2) by simp
  show "rd N (set_bnd N b x) 0 (N + 1)
          = 0.5 * (mirror (b = 2) (rd N x 1 N) + mirror (b = 1) (rd N x 1 N))"
    using R [of 0 "N + 1"] assms(2) by simp
  show "rd N (set_bnd N b x) (N + 1) 0
          = 0.5 * (mirror (b = 2) (rd N x N 1) + mirror (b = 1) (rd N x N 1))"
    using R [of "N + 1" 0] assms(2) by simp
  show "rd N (set_bnd N b x) (N + 1) (N + 1)
          = 0.5 * (mirror (b = 2) (rd N x N N) + mirror (b = 1) (rd N x N N))"
    using R [of "N + 1" "N + 1"] assms(2) by simp
qed

lemma grid_cases:
  assumes "0 \<le> (i::int)" "i \<le> N + 1" "0 \<le> (j::int)" "j \<le> N + 1"
  obtains (interior) "1 \<le> i" "i \<le> N" "1 \<le> j" "j \<le> N"
    | (top) "1 \<le> i" "i \<le> N" "j = 0"
    | (bottom) "1 \<le> i" "i \<le> N" "j = N + 1"
    | (left) "i = 0" "1 \<le> j" "j \<le> N"
    | (right) "i = N + 1" "1 \<le> j" "j \<le> N"
    | (c00) "i = 0" "j = 0"
    | (c0N) "i = 0" "j = N + 1"
    | (cN0) "i = N + 1" "j = 0"
    | (cNN) "i = N + 1" "j = N + 1"
proof -
  have i: "i = 0 \<or> (1 \<le> i \<and> i \<le> N) \<or> i = N + 1" using assms(1,2) by linarith
  have j: "j = 0 \<or> (1 \<le> j \<and> j \<le> N) \<or> j = N + 1" using assms(3,4) by linarith
  from i j show ?thesis
    using interior top bottom left right c00 c0N cN0 cNN by blast
qed

lemma set_bnd_cong_interior:
  assumes "1 \<le> N" "wf_field N x" "wf_field N y"
    and "\<And>i j. 1 \<le> i \<Longrightarrow> i \<le> N \<Longrightarrow> 1 \<le> j \<Longrightarrow> j \<le> N \<Longrightarrow> rd N x i j = rd N y i j"
  shows "set_bnd N b x = set_bnd N b y"
proof (rule field_ext [of N])
  show "wf_field N (set_bnd N b x)" "wf_field N (set_bnd N b y)"
    using assms(2,3) by (simp_all add: wf_set_bnd)
  fix i j assume ij: "0 \<le> i" "i \<le> N + 1" "0 \<le> j" "j \<le> N + 1"
  note X = rd_set_bnd_cases [OF assms(2) assms(1), where b = b]
  note Y = rd_set_bnd_cases [OF assms(3) assms(1), where b = b]
  from ij show "rd N (set_bnd N b x) i j = rd N (set_bnd N b y) i j"
  proof (cases rule: grid_cases)
    case interior
    then show ?thesis by (simp add: X(1) Y(1) assms(4))
  next
    case top
    then show ?thesis using assms(1) by (simp add: X(2) Y(2) assms(4))
  next
    case bottom
    then show ?thesis using assms(1) by (simp add: X(3) Y(3) assms(4))
  next
    case left
    then show ?thesis using assms(1) by (simp add: X(4) Y(4) assms(4))
  next
    case right
    then show ?thesis using assms(1) by (simp add: X(5) Y(5) assms(4))
  next
    case c00
    then show ?thesis using assms(1) by (simp add: X(6) Y(6) assms(4))
  next
    case c0N
    then show ?thesis using assms(1) by (simp add: X(7) Y(7) assms(4))
  next
    case cN0
    then show ?thesis using assms(1) by (simp add: X(8) Y(8) assms(4))
  next
    case cNN
    then show ?thesis using assms(1) by (simp add: X(9) Y(9) assms(4))
  qed
qed

lemma set_bnd_interior_copy:
  assumes "1 \<le> N" "wf_field N x" "wf_field N x0"
  shows "set_bnd N b (interior_map N (\<lambda>i j v. rd N x0 i j) x) = set_bnd N b x0"
proof (rule set_bnd_cong_interior [OF assms(1)])
  show "wf_field N (interior_map N (\<lambda>i j v. rd N x0 i j) x)"
    using assms(2) by (simp add: wf_interior_map)
  show "wf_field N x0" by (rule assms(3))
  fix i j assume "1 \<le> i" "i \<le> N" "1 \<le> j" "j \<le> N"
  then show "rd N (interior_map N (\<lambda>i j v. rd N x0 i j) x) i j = rd N x0 i j"
    using rd_interior_map [OF assms(2), of i j "\<lambda>i j v. rd N x0 i j"] by simp
qed

lemma set_bnd_idem:
  assumes "1 \<le> N" "wf_field N x"
  shows "set_bnd N b (set_bnd N b x) = set_bnd N b x"
proof -
  have "set_bnd N b (set_bnd N b x) = set_bnd N b x"
  proof (rule set_bnd_cong_interior [OF assms(1)])
    show "wf_field N (set_bnd N b x)" using assms(2) by (simp add: wf_set_bnd)
    show "wf_field N x" by (rule assms(2))
    fix i j assume "1 \<le> i" "i \<le> N" "1 \<le> j" "j \<le> N"
    then show "rd N (set_bnd N b x) i j = rd N x i j"
      using set_bnd_policy(2) [OF assms, of b] by simp
  qed
  then show ?thesis .
qed

text \<open>With the coefficient \<open>a = 0\<close> one relaxation sweep copies the interior of \<open>x0\<close>.\<close>

lemma lin_solve_sweep_copy:
  assumes "1 \<le> N" "wf_field N x" "wf_field N x0"
  shows "lin_solve_sweep N b x0 0 1 x = set_bnd N b x0"
proof -
  have "lin_solve_cell N x0 0 1 = (\<lambda>j i x. wr N x i j (rd N x0 i j))"
    by (intro ext) (simp add: lin_solve_cell_def)
  then have "fold (\<lambda>j. fold (lin_solve_cell N x0 0 1 j) [1..N]) [1..N] x
      = interior_map N (\<lambda>i j v. rd N x0 i j) x"
    by (simp add: interior_map_def)
  then show ?thesis
    by (simp add: lin_solve_sweep_def set_bnd_interior_copy [OF assms])
qed

lemma diffuse_copy:
  assumes "1 \<le> N" "wf_field N x" "wf_field N x0"
    "dt' * diff' * real_of_int (N - 2) * real_of_int (N - 2) = 0"
  shows "diffuse N b x x0 diff' dt' 1 = Inr (set_bnd N b x0)"
proof -
  have "diffuse N b x x0 diff' dt' 1 = lin_solve N b x x0 0 (1 + 6 * 0) 1"
    by (simp only: diffuse_def Let_def assms(4))
  also have "\<dots> = Inr (lin_solve_sweep N b x0 0 1 x)"
    by (simp add: lin_solve_def)
  finally show ?thesis by (simp add: lin_solve_sweep_copy [OF assms(1-3)])
qed

text \<open>Where the velocity is zero the backtrace of a cell ends in the cell itself.\<close>

lemma advect_cell_still:
  assumes "1 \<le> i" "i \<le> N" "1 \<le> j" "j \<le> N" "rd N velocX i j = 0" "rd N velocY i j = 0"
  shows "advect_cell N d0 velocX velocY dt0 j i d = wr N d i j (rd N d0 i j)"
  using assms by (simp add: advect_cell_def Let_def)

lemma advect_still:
  assumes "1 \<le> N" "wf_field N d" "wf_field N d0"
    "field_inv N (\<lambda>v. v = 0) velocX" "field_inv N (\<lambda>v. v = 0) velocY"
  shows "advect N b d d0 velocX velocY dt' = set_bnd N b d0"
proof -
  let ?dt0 = "dt' * real_of_int (N - 2)"
  have z: "\<And>i j. rd N velocX i j = 0" "\<And>i j. rd N velocY i j = 0"
    using inv_rd [OF assms(4)] inv_rd [OF assms(5)] by simp_all
  have inner: "fold (advect_cell N d0 velocX velocY ?dt0 j) [1..N]
      = fold (\<lambda>i x. wr N x i j (rd N d0 i j)) [1..N]" if "j \<in> set [1..N]" for j
  proof (rule ext, rule fold_cong [OF refl refl])
    fix y i assume "i \<in> set [1..N]"
    with that show "advect_cell N d0 velocX velocY ?dt0 j i = (\<lambda>x. wr N x i j (rd N d0 i j))"
      by (intro ext advect_cell_still) (simp_all add: z)
  qed
  have "fold (\<lambda>j. fold (advect_cell N d0 velocX velocY ?dt0 j) [1..N]) [1..N] d
      = fold (\<lambda>j. fold (\<lambda>i x. wr N x i j (rd N d0 i j)) [1..N]) [1..N] d"
    by (rule fold_cong [OF refl refl]) (rule inner)
  also have "\<dots> = interior_map N (\<lambda>i j v. rd N d0 i j) d"
    by (simp add: interior_map_def)
  finally have "advect N b d d0 velocX velocY dt'
      = set_bnd N b (interior_map N (\<lambda>i j v. rd N d0 i j) d)"
    by (simp only: advect_def Let_def)
  then show ?thesis
    by (simp only: set_bnd_interior_copy [OF assms(1-3)])
qed

lemma step_still:
  assumes wf: "wf_solver S" and N: "1 \<le> sizeN S"
    and z: "zero_field (Vx S)" "zero_field (Vy S)" "zero_field (Vx0 S)" "zero_field (Vy0 S)"
    and cv: "1 + 6 * (dt S * visc S * real_of_int (sizeN S - 2) * real_of_int (sizeN S - 2)) \<noteq> 0"
    and a0: "dt S * diff S * real_of_int (sizeN S - 2) * real_of_int (sizeN S - 2) = 0"
  shows "step S 1 fadeRate
       = Inr (S\<lparr> s := set_bnd (sizeN S) 0 (density S),
                 density := fade fadeRate (set_bnd (sizeN S) 0 (density S)) \<rparr>)"
proof -
  let ?N = "sizeN S"
  let ?Z = "field_inv ?N (\<lambda>v. v = 0)"
  have w: "wf_field ?N (s S)" "wf_field ?N (density S)"
    using wf by (simp_all add: wf_solver_def)
  have zz: "?Z (Vx S)" "?Z (Vy S)" "?Z (Vx0 S)" "?Z (Vy0 S)"
    using wf z by (simp_all add: wf_solver_def field_inv_def zero_field_def)
  have d1: "diffuse ?N 1 (Vx0 S) (Vx S) (visc S) (dt S) 1 = Inr (Vx0 S)"
    by (rule diffuse_zero [OF cv zz(1) zz(3)])
  have d2: "diffuse ?N 2 (Vy0 S) (Vy S) (visc S) (dt S) 1 = Inr (Vy0 S)"
    by (rule diffuse_zero [OF cv zz(2) zz(4)])
  have p1: "project ?N (Vx0 S) (Vy0 S) (Vx S) (Vy S) 1 = Inr (Vx0 S, Vy0 S, Vx S, Vy S)"
    by (rule project_zero [OF zz(3) zz(4) zz(1) zz(2)])
  have a1: "advect ?N 1 (Vx S) (Vx0 S) (Vx0 S) (Vy0 S) (dt S) = Vx S"
    by (rule advect_zero [OF zz(3) zz(1)])
  have a2: "advect ?N 2 (Vy S) (Vy0 S) (Vx0 S) (Vy0 S) (dt S) = Vy S"
    by (rule advect_zero [OF zz(4) zz(2)])
  have p2: "project ?N (Vx S) (Vy S) (Vx0 S) (Vy0 S) 1 = Inr (Vx S, Vy S, Vx0 S, Vy0 S)"
    by (rule project_zero [OF zz(1) zz(2) zz(3) zz(4)])
  have d3: "diffuse ?N 0 (s S) (density S) (diff S) (dt S) 1 = Inr (set_bnd ?N 0 (density S))"
    by (rule diffuse_copy [OF N w a0])
  have ws: "wf_field ?N (set_bnd ?N 0 (density S))" using w(2) by (simp add: wf_set_bnd)
  have a3: "advect ?N 0 (density S) (set_bnd ?N 0 (density S)) (Vx S) (Vy S) (dt S)
      = set_bnd ?N 0 (density S)"
    using advect_still [OF N w(2) ws zz(1) zz(2), of 0 "dt S"]
    by (simp add: set_bnd_idem [OF N w(2)])
  show ?thesis
    by (simp add: step_def Let_def d1 d2 p1 a1 a2 p2 d3 a3)
qed


lemma rd_impulse:
  assumes "0 \<le> N" "0 \<le> k" "k \<le> N + 1" "0 \<le> l" "l \<le> N + 1"
    and "0 \<le> i" "i \<le> N + 1" "0 \<le> j" "j \<le> N + 1"
  shows "rd N ((replicate (nat ((N + 2) * (N + 2))) 0)[nat (IX N k l) := v]) i j
       = (if i = k \<and> j = l then v else 0)"
  using rd_wr [OF wf_replicate [OF assms(1), of 0] assms(2-9), of v] assms(1)
  by (simp add: wr_def rd_replicate)


text \<open>
  One tick of a fresh solver without diffusion and viscosity after one injection: the
  velocity stays zero, and both density buffers become the injected field with its boundary
  set, faded in \<open>density\<close>.
\<close>

lemma step_after_injection:
  assumes "1 \<le> N"
  shows "step (addDensity (new_solver N 0 0 t) x y amount) 1 r
       = Inr ((addDensity (new_solver N 0 0 t) x y amount)
               \<lparr> s := set_bnd N 0 (density (addDensity (new_solver N 0 0 t) x y amount)),
                 density := fade r
                   (set_bnd N 0 (density (addDensity (new_solver N 0 0 t) x y amount))) \<rparr>)"
proof -
  let ?S = "addDensity (new_solver N 0 0 t) x y amount"
  have N0: "0 \<le> N" using assms by simp
  have w: "wf_solver ?S" by (rule wf_addDensity [OF wf_new_solver [OF N0]])
  have n: "sizeN ?S = N" by (simp add: addDensity_other_fields new_solver_simps)
  have "step ?S 1 r
       = Inr (?S\<lparr> s := set_bnd (sizeN ?S) 0 (density ?S),
                  density := fade r (set_bnd (sizeN ?S) 0 (density ?S)) \<rparr>)"
    by (rule step_still [OF w])
      (simp_all add: addDensity_other_fields new_solver_simps zero_field_replicate assms)
  then show ?thesis by (simp only: n)
qed

subsection \<open>One injection into a fresh solver\<close>




subsection \<open>Fading\<close>


subsection \<open>Reset\<close>

lemma handleReset_Some:
  "handleReset (Some S)
     = Some (S\<lparr> density := replicate (length (density S)) 0,
                 Vx := replicate (length (Vx S)) 0,
                 Vy := replicate (length (Vy S)) 0,
                 Vx0 := replicate (length (Vx0 S)) 0,
                 Vy0 := replicate (length (Vy0 S)) 0 \<rparr>)"
  by (simp add: handleReset_def fill_def)

text \<open>
  Claim C2, evaluated on the code. After \<open>addDensity(2, 2, 100)\<close> and one step on a fresh
  solver with \<open>N = 4\<close> the work buffer \<open>s\<close> holds \<open>100\<close> at cell \<open>(2, 2)\<close>.
  \<open>handleReset\<close> zero-fills \<open>density\<close> (and the four velocity buffers) but has no
  \<open>fill\<close> for \<open>s\<close>: the cell still holds \<open>100\<close> afterwards.
\<close>

theorem handleReset_keeps_s:
  "rd 4 (s (the (handleReset
       (Some (projr (step (addDensity (new_solver 4 0 0 (1/10)) 2 2 100) 1 0)))))) 2 2 = 100
   \<and> zero_field (density (the (handleReset
       (Some (projr (step (addDensity (new_solver 4 0 0 (1/10)) 2 2 100) 1 0))))))"
proof -
  let ?S = "addDensity (new_solver 4 0 0 (1/10)) 2 2 100"
  let ?D = "(replicate (nat ((4 + 2) * (4 + 2))) (0::real))[nat (IX 4 2 2) := 100]"
  have D: "density ?S = ?D" by (rule density_addDensity_fresh) (simp_all add: float32_100)
  have wD: "wf_field 4 ?D" by (simp add: wf_field_def)
  have st: "step ?S 1 0
      = Inr (?S\<lparr> s := set_bnd 4 0 ?D, density := fade 0 (set_bnd 4 0 ?D) \<rparr>)"
    using step_after_injection [of 4 "1/10" 2 2 100 0] by (simp only: D)
  have "rd 4 ?D 2 2 = 100" using rd_impulse [of 4 2 2 2 2 100] by simp
  then have "rd 4 (set_bnd 4 0 ?D) 2 2 = 100"
    using rd_set_bnd_cases(1) [OF wD, of 2 2 0] by simp
  then show ?thesis
    by (simp add: st handleReset_Some zero_field_replicate)
qed

lemma bounded_convex: "convex_closed (\<lambda>v. 0 \<le> v \<and> v \<le> M)"
  unfolding convex_closed_def
proof (intro allI impI)
  fix t u v :: real
  assume t: "0 \<le> t" "t \<le> 1" and u: "0 \<le> u \<and> u \<le> M" and v: "0 \<le> v \<and> v \<le> M"
  have "(1 - t) * u + t * v \<le> M"
    by (rule convex_bound_le) (use t u v in simp_all)
  moreover have "0 \<le> (1 - t) * u + t * v" using t u v by simp
  ultimately show "0 \<le> (1 - t) * u + t * v \<and> (1 - t) * u + t * v \<le> M" by simp
qed

lemma bounded_relax:
  assumes "0 \<le> a"
  shows "relax_closed (\<lambda>v. 0 \<le> v \<and> v \<le> M) (\<lambda>v. 0 \<le> v \<and> v \<le> M) a (1 / (1 + 6 * a))"
  unfolding relax_closed_def
proof (intro allI impI)
  fix u n1 n2 n3 n4 :: real
  assume u: "0 \<le> u \<and> u \<le> M" and n: "0 \<le> n1 \<and> n1 \<le> M" "0 \<le> n2 \<and> n2 \<le> M"
    "0 \<le> n3 \<and> n3 \<le> M" "0 \<le> n4 \<and> n4 \<le> M"
  have M: "0 \<le> M" using u by simp
  have c: "0 < 1 + 6 * a" using assms by simp
  have "a * (n1 + n2 + n3 + n4) \<le> a * (4 * M)"
    using n assms by (intro mult_left_mono) simp_all
  also have "\<dots> \<le> a * (6 * M)" using M assms by (intro mult_left_mono) simp_all
  finally have "u + a * (n1 + n2 + n3 + n4) \<le> M * (1 + 6 * a)"
    using u by (simp add: algebra_simps)
  then have "(u + a * (n1 + n2 + n3 + n4)) / (1 + 6 * a) \<le> M"
    using c by (simp add: pos_divide_le_eq)
  moreover have "0 \<le> (u + a * (n1 + n2 + n3 + n4)) / (1 + 6 * a)"
    using u n assms by simp
  ultimately show "0 \<le> (u + a * (n1 + n2 + n3 + n4)) * (1 / (1 + 6 * a))
      \<and> (u + a * (n1 + n2 + n3 + n4)) * (1 / (1 + 6 * a)) \<le> M"
    by simp
qed

lemma fade_bounded:
  assumes "0 < r" "r \<le> 1" "list_all (\<lambda>v. 0 \<le> v \<and> v \<le> M) D"
  shows "list_all (\<lambda>v. 0 \<le> v \<and> v \<le> (1 - r) * M) (fade r D)"
proof -
  have "max 0 (d * (1 - r)) \<le> (1 - r) * M" if "0 \<le> d" "d \<le> M" for d
  proof -
    have "d * (1 - r) \<le> M * (1 - r)" using that assms(2) by (intro mult_right_mono) simp_all
    moreover have "0 \<le> M * (1 - r)" using that assms(2) by simp
    ultimately show ?thesis by (simp add: mult.commute)
  qed
  then show ?thesis using assms by (simp add: fade_def list_all_iff)
qed

subsection \<open>Decay of the density under fading\<close>

lemma fold2_product:
  "fold (\<lambda>j. fold (f j) is) js x = fold (\<lambda>c. f (fst c) (snd c)) (List.product js is) x"
proof (induction js arbitrary: x)
  case Nil
  then show ?case by simp
next
  case (Cons j js)
  have "fold (\<lambda>c. f (fst c) (snd c)) (map (Pair j) is) x = fold (f j) is x"
    by (simp add: fold_map comp_def)
  then show ?case using Cons.IH by simp
qed

lemma fold_cells_written:
  fixes g :: "int \<Rightarrow> int \<Rightarrow> field \<Rightarrow> real"
  assumes st: "\<And>j i y. I y \<Longrightarrow> wf_field N y \<Longrightarrow> I (wr N y i j (g j i y)) \<and> Q (g j i y)"
  shows "distinct cs \<Longrightarrow> \<forall>c\<in>set cs \<union> C. 0 \<le> snd c \<and> snd c \<le> N + 1 \<and> 0 \<le> fst c \<and> fst c \<le> N + 1
    \<Longrightarrow> C \<inter> set cs = {} \<Longrightarrow> I x \<Longrightarrow> wf_field N x \<Longrightarrow> \<forall>c\<in>C. Q (rd N x (snd c) (fst c))
    \<Longrightarrow> I (fold (\<lambda>c y. wr N y (snd c) (fst c) (g (fst c) (snd c) y)) cs x)
      \<and> (\<forall>c\<in>C \<union> set cs.
            Q (rd N (fold (\<lambda>c y. wr N y (snd c) (fst c) (g (fst c) (snd c) y)) cs x) (snd c) (fst c)))"
proof (induction cs arbitrary: x C)
  case Nil
  then show ?case by simp
next
  case (Cons a cs)
  let ?x' = "wr N x (snd a) (fst a) (g (fst a) (snd a) x)"
  have a: "0 \<le> snd a" "snd a \<le> N + 1" "0 \<le> fst a" "fst a \<le> N + 1"
    using Cons.prems(2) by simp_all
  have s1: "I ?x'" "Q (g (fst a) (snd a) x)"
    using st [OF Cons.prems(4,5), of "snd a" "fst a"] by simp_all
  have w: "wf_field N ?x'" using Cons.prems(5) by (simp add: wf_field_wr)
  have q: "\<forall>c\<in>insert a C. Q (rd N ?x' (snd c) (fst c))"
  proof
    fix c assume c: "c \<in> insert a C"
    have cr: "0 \<le> snd c" "snd c \<le> N + 1" "0 \<le> fst c" "fst c \<le> N + 1"
      using c Cons.prems(2) by auto
    have r: "rd N ?x' (snd c) (fst c)
        = (if snd a = snd c \<and> fst a = fst c then g (fst a) (snd a) x else rd N x (snd c) (fst c))"
      by (rule rd_wr [OF Cons.prems(5) a(1,2,3,4) cr])
    show "Q (rd N ?x' (snd c) (fst c))"
    proof (cases "c = a")
      case True
      then show ?thesis using r s1(2) by simp
    next
      case False
      then have cC: "c \<in> C" using c by simp
      from False have "(snd a = snd c \<and> fst a = fst c) = False"
        by (auto simp: prod_eq_iff)
      then have "rd N ?x' (snd c) (fst c) = rd N x (snd c) (fst c)"
        unfolding r by (simp only: if_False)
      then show ?thesis using cC Cons.prems(6) by simp
    qed
  qed
  have d: "distinct cs" "insert a C \<inter> set cs = {}"
    using Cons.prems(1,3) by auto
  have rg: "\<forall>c\<in>set cs \<union> insert a C. 0 \<le> snd c \<and> snd c \<le> N + 1 \<and> 0 \<le> fst c \<and> fst c \<le> N + 1"
    using Cons.prems(2) by auto
  from Cons.IH [OF d(1) rg d(2) s1(1) w q] show ?case by simp
qed

lemma cells_from_rd:
  assumes "wf_field N x"
    and "\<And>i j. 0 \<le> i \<Longrightarrow> i \<le> N + 1 \<Longrightarrow> 0 \<le> j \<Longrightarrow> j \<le> N + 1 \<Longrightarrow> P (rd N x i j)"
  shows "list_all P x"
  unfolding list_all_length
proof (intro allI impI)
  fix k assume k: "k < length x"
  have N: "0 \<le> N" using assms(1) by (simp add: wf_field_def)
  let ?i = "int k mod (N + 2)" and ?j = "int k div (N + 2)"
  have kk: "int k < (N + 2) * (N + 2)" using k assms(1) by (simp add: wf_field_def)
  have "0 \<le> ?i" "?i < N + 2" using N by simp_all
  then have i: "0 \<le> ?i" "?i \<le> N + 1" by simp_all
  have j0: "0 \<le> ?j" using N by (simp add: pos_imp_zdiv_nonneg_iff)
  have "?j < N + 2"
  proof (rule ccontr)
    assume "\<not> ?j < N + 2"
    then have "N + 2 \<le> ?j" by simp
    then have "(N + 2) * (N + 2) \<le> (N + 2) * ?j" using N by (intro mult_left_mono) simp_all
    also have "\<dots> \<le> (N + 2) * ?j + ?i" using i(1) by linarith
    also have "\<dots> = int k" by simp
    finally show False using kk by simp
  qed
  then have j: "?j \<le> N + 1" by simp
  have "IX N ?i ?j = int k" using i j0 j by (simp add: IX_grid)
  then have "nat (IX N ?i ?j) = k" by simp
  then show "P (x ! k)" using assms(2) [OF i j0 j] by (simp add: rd_def)
qed

lemma relax_value_bound:
  assumes "0 \<le> (a::real)" "0 \<le> u \<and> u \<le> D"
    "0 \<le> n1 \<and> n1 \<le> K" "0 \<le> n2 \<and> n2 \<le> K" "0 \<le> n3 \<and> n3 \<le> K" "0 \<le> n4 \<and> n4 \<le> K"
  shows "0 \<le> (u + a * (n1 + n2 + n3 + n4)) * (1 / (1 + 6 * a))
       \<and> (u + a * (n1 + n2 + n3 + n4)) * (1 / (1 + 6 * a)) \<le> (D + 4 * a * K) / (1 + 6 * a)"
proof -
  have c: "0 < 1 + 6 * a" using assms(1) by simp
  have "a * (n1 + n2 + n3 + n4) \<le> a * (4 * K)"
    using assms by (intro mult_left_mono) simp_all
  then have "u + a * (n1 + n2 + n3 + n4) \<le> D + 4 * a * K"
    using assms(2) by (simp add: algebra_simps)
  then have "(u + a * (n1 + n2 + n3 + n4)) / (1 + 6 * a) \<le> (D + 4 * a * K) / (1 + 6 * a)"
    using c by (simp add: divide_right_mono)
  moreover have "0 \<le> (u + a * (n1 + n2 + n3 + n4)) / (1 + 6 * a)"
    using assms by simp
  ultimately show ?thesis by simp
qed

lemma relax_bound_below_K:
  assumes "0 \<le> (a::real)" "D \<le> K" "0 \<le> K"
  shows "(D + 4 * a * K) / (1 + 6 * a) \<le> K"
proof -
  have c: "0 < 1 + 6 * a" using assms(1) by simp
  have "4 * a * K \<le> 6 * a * K" using assms(1,3) by (simp add: mult_right_mono)
  then have "D + 4 * a * K \<le> K * (1 + 6 * a)" using assms(2) by (simp add: algebra_simps)
  then show ?thesis using c by (simp add: pos_divide_le_eq)
qed

lemma bounded_relax2:
  assumes "0 \<le> a" "D \<le> B"
  shows "relax_closed (\<lambda>v. 0 \<le> v \<and> v \<le> D) (\<lambda>v. 0 \<le> v \<and> v \<le> B) a (1 / (1 + 6 * a))"
  unfolding relax_closed_def
proof (intro allI impI)
  fix u n1 n2 n3 n4 :: real
  assume u: "0 \<le> u \<and> u \<le> D" and n: "0 \<le> n1 \<and> n1 \<le> B" "0 \<le> n2 \<and> n2 \<le> B"
    "0 \<le> n3 \<and> n3 \<le> B" "0 \<le> n4 \<and> n4 \<le> B"
  have B: "0 \<le> B" using n(1) by simp
  from relax_value_bound [OF assms(1) u n]
  have "0 \<le> (u + a * (n1 + n2 + n3 + n4)) * (1 / (1 + 6 * a))"
    "(u + a * (n1 + n2 + n3 + n4)) * (1 / (1 + 6 * a)) \<le> (D + 4 * a * B) / (1 + 6 * a)"
    by simp_all
  moreover have "(D + 4 * a * B) / (1 + 6 * a) \<le> B"
    by (rule relax_bound_below_K [OF assms B])
  ultimately show "0 \<le> (u + a * (n1 + n2 + n3 + n4)) * (1 / (1 + 6 * a))
      \<and> (u + a * (n1 + n2 + n3 + n4)) * (1 / (1 + 6 * a)) \<le> B"
    by simp
qed

text \<open>
  After one relaxation sweep of a scalar field every cell has been written: the interior by
  the update, the boundary from the interior.
\<close>

lemma lin_solve_sweep_bound:
  assumes N: "1 \<le> N" and w: "wf_field N x0" "wf_field N x"
    and b: "list_all (\<lambda>v. 0 \<le> v \<and> v \<le> D) x0" "list_all (\<lambda>v. 0 \<le> v \<and> v \<le> K) x"
    and a: "0 \<le> a" and DK: "D \<le> K"
  shows "list_all (\<lambda>v. 0 \<le> v \<and> v \<le> (D + 4 * a * K) / (1 + 6 * a))
           (lin_solve_sweep N 0 x0 a (1 / (1 + 6 * a)) x)"
proof -
  let ?B = "(D + 4 * a * K) / (1 + 6 * a)"
  let ?c = "1 / (1 + 6 * a)"
  let ?g = "\<lambda>j i y. (rd N x0 i j +
       a * (rd N y (i + 1) j + rd N y (i - 1) j + rd N y i (j + 1) + rd N y i (j - 1))) * ?c"
  let ?cs = "List.product [1..N] [1..N]"
  let ?y = "fold (\<lambda>j. fold (lin_solve_cell N x0 a ?c j) [1..N]) [1..N] x"
  have K0: "0 \<le> K"
  proof -
    have "rd N x 0 0 \<in> set x" using IX_in_field [OF w(2), of 0 0] by (simp add: rd_def)
    then show ?thesis using b(2) by (auto simp: list_all_iff)
  qed
  have BK: "?B \<le> K" by (rule relax_bound_below_K [OF a DK K0])
  have eq: "lin_solve_cell N x0 a ?c = (\<lambda>j i y. wr N y i j (?g j i y))"
    by (intro ext) (simp add: lin_solve_cell_def)
  have "?y = fold (\<lambda>c. lin_solve_cell N x0 a ?c (fst c) (snd c)) ?cs x"
    by (rule fold2_product)
  then have y: "?y = fold (\<lambda>c y. wr N y (snd c) (fst c) (?g (fst c) (snd c) y)) ?cs x"
    by (simp only: eq)
  have st: "list_all (\<lambda>v. 0 \<le> v \<and> v \<le> K) (wr N y i j (?g j i y))
      \<and> (0 \<le> ?g j i y \<and> ?g j i y \<le> ?B)"
    if "list_all (\<lambda>v. 0 \<le> v \<and> v \<le> K) y" "wf_field N y" for j i y
  proof -
    have v: "0 \<le> ?g j i y \<and> ?g j i y \<le> ?B"
      by (rule relax_value_bound [OF a])
        (simp_all add: cells_rd [OF w(1) b(1)] cells_rd [OF that(2) that(1)])
    with BK have "0 \<le> ?g j i y \<and> ?g j i y \<le> K" by simp
    with v that(1) show ?thesis by (simp add: cells_wr)
  qed
  have "list_all (\<lambda>v. 0 \<le> v \<and> v \<le> K) ?y
      \<and> (\<forall>c\<in>{} \<union> set ?cs. 0 \<le> rd N ?y (snd c) (fst c) \<and> rd N ?y (snd c) (fst c) \<le> ?B)"
    unfolding y
    by (rule fold_cells_written [where I = "list_all (\<lambda>v. 0 \<le> v \<and> v \<le> K)"
          and Q = "\<lambda>v. 0 \<le> v \<and> v \<le> ?B" and g = ?g, OF st])
      (use b(2) w(2) in \<open>auto simp: distinct_product\<close>)
  then have int: "0 \<le> rd N ?y i j \<and> rd N ?y i j \<le> ?B"
    if "1 \<le> i" "i \<le> N" "1 \<le> j" "j \<le> N" for i j
    using that by auto
  have wy: "wf_field N ?y"
    using wf_lin_solve_sweep [of N 0 x0 a ?c x] w(2) by (simp add: lin_solve_sweep_def wf_set_bnd)
  note X = rd_set_bnd_cases [OF wy N, where b = 0]
  have c1: "0 \<le> rd N ?y 1 1 \<and> rd N ?y 1 1 \<le> ?B" "0 \<le> rd N ?y 1 N \<and> rd N ?y 1 N \<le> ?B"
    "0 \<le> rd N ?y N 1 \<and> rd N ?y N 1 \<le> ?B" "0 \<le> rd N ?y N N \<and> rd N ?y N N \<le> ?B"
    using int [of 1 1] int [of 1 N] int [of N 1] int [of N N] N by simp_all
  show ?thesis
    unfolding lin_solve_sweep_def
  proof (rule cells_from_rd)
    show "wf_field N (set_bnd N 0 ?y)" using wy by (simp add: wf_set_bnd)
    fix i j assume ij: "0 \<le> i" "i \<le> N + 1" "0 \<le> j" "j \<le> N + 1"
    from ij show "0 \<le> rd N (set_bnd N 0 ?y) i j \<and> rd N (set_bnd N 0 ?y) i j \<le> ?B"
    proof (cases rule: grid_cases)
      case interior
      then show ?thesis using int [of i j] by (simp add: X(1))
    next
      case top
      then show ?thesis using int [of i 1] N by (simp add: X(2) mirror_def)
    next
      case bottom
      then show ?thesis using int [of i N] N by (simp add: X(3) mirror_def)
    next
      case left
      then show ?thesis using int [of 1 j] N by (simp add: X(4) mirror_def)
    next
      case right
      then show ?thesis using int [of N j] N by (simp add: X(5) mirror_def)
    next
      case c00
      then show ?thesis using c1(1) by (simp add: X(6) mirror_def)
    next
      case c0N
      then show ?thesis using c1(2) by (simp add: X(7) mirror_def)
    next
      case cN0
      then show ?thesis using c1(3) by (simp add: X(8) mirror_def)
    next
      case cNN
      then show ?thesis using c1(4) by (simp add: X(9) mirror_def)
    qed
  qed
qed

lemma decay_rate_bounds:
  assumes "0 < r" "r \<le> 1" "0 \<le> a"
  shows "0 \<le> decay_rate r a" "decay_rate r a < 1"
proof -
  have c: "0 < 1 + 6 * a" using assms(3) by simp
  have "(1 - r + 4 * a) / (1 + 6 * a) < 1" using c assms by (simp add: pos_divide_less_eq)
  then show "decay_rate r a < 1" using assms(1) by (simp add: decay_rate_def)
  show "0 \<le> decay_rate r a" using assms(2) by (simp add: decay_rate_def max_def)
qed

lemma decay_rate_scale:
  assumes "0 \<le> K" "0 \<le> a"
  shows "max ((1 - r) * K) (((1 - r) * K + 4 * a * K) / (1 + 6 * a)) = decay_rate r a * K"
proof -
  have "(1 - r) * K + 4 * a * K = (1 - r + 4 * a) * K"
    by (simp add: algebra_simps)
  then have e: "((1 - r) * K + 4 * a * K) / (1 + 6 * a) = ((1 - r + 4 * a) / (1 + 6 * a)) * K"
    by simp
  have "max (1 - r) ((1 - r + 4 * a) / (1 + 6 * a)) * K
      = max ((1 - r) * K) (((1 - r + 4 * a) / (1 + 6 * a)) * K)"
    using assms(1) by (simp add: max_mult_distrib_right)
  then show ?thesis
    unfolding e decay_rate_def by simp
qed

lemma list_all_mono_bound:
  "list_all (\<lambda>v. 0 \<le> v \<and> v \<le> B) x \<Longrightarrow> B \<le> B' \<Longrightarrow> list_all (\<lambda>v. 0 \<le> v \<and> v \<le> (B'::real)) x"
  by (auto simp: list_all_iff)

lemma diffuse_bound_iter:
  assumes N: "1 \<le> N" and w: "wf_field N x0" "wf_field N x"
    and b: "list_all (\<lambda>v. 0 \<le> v \<and> v \<le> D) x0" "list_all (\<lambda>v. 0 \<le> v \<and> v \<le> K) x"
    and t: "0 \<le> dt'" "0 \<le> diff'" and DK: "D \<le> K" and it: "1 \<le> iter"
  shows "\<exists>y. diffuse N 0 x x0 diff' dt' iter = Inr y
           \<and> field_inv N (\<lambda>v. 0 \<le> v \<and> v
                \<le> max D ((D + 4 * (dt' * diff' * real_of_int (N - 2) * real_of_int (N - 2)) * K)
                      / (1 + 6 * (dt' * diff' * real_of_int (N - 2) * real_of_int (N - 2))))) y"
proof -
  let ?a = "dt' * diff' * real_of_int (N - 2) * real_of_int (N - 2)"
  let ?c = "1 / (1 + 6 * ?a)"
  let ?B1 = "(D + 4 * ?a * K) / (1 + 6 * ?a)"
  let ?B = "max D ?B1"
  let ?P = "\<lambda>v. 0 \<le> v \<and> v \<le> ?B"
  have a: "0 \<le> ?a" by (rule diffusion_coefficient_nonneg [OF t])
  obtain k where k: "nat iter = Suc k" using it by (cases "nat iter") simp_all
  let ?x1 = "lin_solve_sweep N 0 x0 ?a ?c x"
  have "list_all (\<lambda>v. 0 \<le> v \<and> v \<le> ?B1) ?x1"
    by (rule lin_solve_sweep_bound [OF N w b a DK])
  then have "list_all ?P ?x1" by (rule list_all_mono_bound) simp
  then have i1: "field_inv N ?P ?x1" using w(2) by (simp add: field_inv_def wf_lin_solve_sweep)
  have i0: "field_inv N (\<lambda>v. 0 \<le> v \<and> v \<le> D) x0" using w(1) b(1) by (simp add: field_inv_def)
  have "field_inv N ?P (lin_solve_loop k N 0 x0 ?a ?c ?x1)"
    by (rule lin_solve_loop_inv [OF i0 i1 bounded_relax2 [OF a] convex_avg [OF bounded_convex]])
      (simp_all add: neg_closed_def)
  moreover have "diffuse N 0 x x0 diff' dt' iter = Inr (lin_solve_loop k N 0 x0 ?a ?c ?x1)"
    using a by (simp add: diffuse_def Let_def lin_solve_def k)
  ultimately show ?thesis by simp
qed

lemma step_decay:
  assumes wf: "wf_solver S" and N: "1 \<le> sizeN S" and it: "1 \<le> iter"
    and t: "0 \<le> dt S" "0 \<le> diff S"
    and cv: "1 + 6 * (dt S * visc S * real_of_int (sizeN S - 2) * real_of_int (sizeN S - 2)) \<noteq> 0"
    and r: "0 < r" "r \<le> 1" and K: "0 \<le> K"
    and b: "list_all (\<lambda>v. 0 \<le> v \<and> v \<le> (1 - r) * K) (density S)"
      "list_all (\<lambda>v. 0 \<le> v \<and> v \<le> K) (s S)"
  shows "\<exists>S'. step S iter r = Inr S' \<and> wf_solver S' \<and> sizeN S' = sizeN S
           \<and> dt S' = dt S \<and> diff S' = diff S \<and> visc S' = visc S
           \<and> list_all (\<lambda>v. 0 \<le> v \<and> v \<le> (1 - r) *
                 (decay_rate r (dt S * diff S * real_of_int (sizeN S - 2) * real_of_int (sizeN S - 2)) * K))
               (density S')
           \<and> list_all (\<lambda>v. 0 \<le> v \<and> v \<le>
                 decay_rate r (dt S * diff S * real_of_int (sizeN S - 2) * real_of_int (sizeN S - 2)) * K)
               (s S')"
proof -
  let ?N = "sizeN S"
  let ?a = "dt S * diff S * real_of_int (?N - 2) * real_of_int (?N - 2)"
  let ?R = "decay_rate r ?a * K"
  let ?P = "\<lambda>v. 0 \<le> v \<and> v \<le> ?R"
  have a: "0 \<le> ?a" by (rule diffusion_coefficient_nonneg [OF t])
  have w: "wf_field ?N (s S)" "wf_field ?N (density S)"
    using wf by (simp_all add: wf_solver_def)
  have DK: "(1 - r) * K \<le> K" using r K by (simp add: mult_left_le_one_le)
  have B: "max ((1 - r) * K) (((1 - r) * K + 4 * ?a * K) / (1 + 6 * ?a)) = ?R"
    by (rule decay_rate_scale [OF K a])
  obtain s_1 where d3: "diffuse ?N 0 (s S) (density S) (diff S) (dt S) iter = Inr s_1"
    and i1: "field_inv ?N ?P s_1"
    using diffuse_bound_iter [OF N w(2) w(1) b t DK it] unfolding B by blast
  have "(1 - r) * K \<le> ?R" using B by linarith
  then have i0: "list_all ?P (density S)" by (rule list_all_mono_bound [OF b(1)])
  obtain S' D where S': "step S iter r = Inr S'" "wf_solver S'" "sizeN S' = sizeN S"
    "dt S' = dt S" "diff S' = diff S" "visc S' = visc S" "s S' = s_1"
    "list_all ?P D" "density S' = fade r D"
    using step_density_gen [OF wf cv d3 i1 i0 bounded_convex, of r] by blast
  have "list_all (\<lambda>v. 0 \<le> v \<and> v \<le> (1 - r) * ?R) (fade r D)"
    by (rule fade_bounded [OF r S'(8)])
  with S' i1 show ?thesis by (simp add: field_inv_def)
qed

lemma step_bound:
  assumes wf: "wf_solver S" and t: "0 \<le> dt S" "0 \<le> diff S"
    and cv: "1 + 6 * (dt S * visc S * real_of_int (sizeN S - 2) * real_of_int (sizeN S - 2)) \<noteq> 0"
    and r: "0 < r" "r \<le> 1"
    and b: "list_all (\<lambda>v. 0 \<le> v \<and> v \<le> M) (density S)" "list_all (\<lambda>v. 0 \<le> v \<and> v \<le> M) (s S)"
  shows "\<exists>S'. step S iter r = Inr S' \<and> wf_solver S' \<and> sizeN S' = sizeN S
           \<and> dt S' = dt S \<and> diff S' = diff S \<and> visc S' = visc S
           \<and> list_all (\<lambda>v. 0 \<le> v \<and> v \<le> (1 - r) * M) (density S')
           \<and> list_all (\<lambda>v. 0 \<le> v \<and> v \<le> M) (s S')"
proof -
  let ?a = "dt S * diff S * real_of_int (sizeN S - 2) * real_of_int (sizeN S - 2)"
  have a: "0 \<le> ?a" by (rule diffusion_coefficient_nonneg [OF t])
  then have cd: "1 + 6 * ?a \<noteq> 0" by simp
  obtain S' D where S': "step S iter r = Inr S'" "wf_solver S'" "sizeN S' = sizeN S"
    "dt S' = dt S" "diff S' = diff S" "visc S' = visc S"
    "list_all (\<lambda>v. 0 \<le> v \<and> v \<le> M) (s S')" "list_all (\<lambda>v. 0 \<le> v \<and> v \<le> M) D"
    "density S' = fade r D"
    using step_density_inv [OF wf cv cd b(2) b(1) bounded_convex bounded_relax [OF a], of iter r]
    by blast
  have "list_all (\<lambda>v. 0 \<le> v \<and> v \<le> (1 - r) * M) (fade r D)"
    by (rule fade_bounded [OF r S'(8)])
  with S' show ?thesis by simp
qed

lemma steps_decay:
  "wf_solver S \<Longrightarrow> 1 \<le> sizeN S \<Longrightarrow> 1 \<le> iter \<Longrightarrow> 0 \<le> dt S \<Longrightarrow> 0 \<le> diff S
   \<Longrightarrow> 1 + 6 * (dt S * visc S * real_of_int (sizeN S - 2) * real_of_int (sizeN S - 2)) \<noteq> 0
   \<Longrightarrow> 0 < r \<Longrightarrow> r \<le> 1 \<Longrightarrow> 0 \<le> K
   \<Longrightarrow> list_all (\<lambda>v. 0 \<le> v \<and> v \<le> (1 - r) * K) (density S)
   \<Longrightarrow> list_all (\<lambda>v. 0 \<le> v \<and> v \<le> K) (s S)
   \<Longrightarrow> \<exists>S'. steps n S iter r = Inr S'
         \<and> list_all (\<lambda>v. 0 \<le> v \<and> v \<le> (1 - r) *
               (decay_rate r (dt S * diff S * real_of_int (sizeN S - 2) * real_of_int (sizeN S - 2)) ^ n
                * K))
             (density S')"
proof (induction n arbitrary: S K)
  case 0
  then show ?case by simp
next
  case (Suc n)
  let ?a = "dt S * diff S * real_of_int (sizeN S - 2) * real_of_int (sizeN S - 2)"
  let ?rho = "decay_rate r ?a"
  have a: "0 \<le> ?a" by (rule diffusion_coefficient_nonneg [OF Suc.prems(4,5)])
  have rho: "0 \<le> ?rho" by (rule decay_rate_bounds(1) [OF Suc.prems(7,8) a])
  obtain S1 where S1: "step S iter r = Inr S1" "wf_solver S1" "sizeN S1 = sizeN S"
    "dt S1 = dt S" "diff S1 = diff S" "visc S1 = visc S"
    "list_all (\<lambda>v. 0 \<le> v \<and> v \<le> (1 - r) * (?rho * K)) (density S1)"
    "list_all (\<lambda>v. 0 \<le> v \<and> v \<le> ?rho * K) (s S1)"
    using step_decay [OF Suc.prems(1-3) Suc.prems(4,5) Suc.prems(6) Suc.prems(7,8)
        Suc.prems(9) Suc.prems(10,11)]
    by blast
  have K': "0 \<le> ?rho * K" using rho Suc.prems(9) by simp
  have "\<exists>S'. steps n S1 iter r = Inr S'
         \<and> list_all (\<lambda>v. 0 \<le> v \<and> v \<le> (1 - r) *
               (decay_rate r (dt S1 * diff S1 * real_of_int (sizeN S1 - 2)
                    * real_of_int (sizeN S1 - 2)) ^ n * (?rho * K)))
             (density S')"
    by (rule Suc.IH [OF S1(2) _ Suc.prems(3) _ _ _ Suc.prems(7,8) K' S1(7,8)])
      (use Suc.prems in \<open>simp_all add: S1\<close>)
  then have IH': "\<exists>S'. steps n S1 iter r = Inr S'
         \<and> list_all (\<lambda>v. 0 \<le> v \<and> v \<le> (1 - r) * (?rho ^ n * (?rho * K))) (density S')"
    by (simp only: S1(3,4,5,6))
  have e: "?rho ^ n * (?rho * K) = ?rho ^ Suc n * K" by simp
  show ?case using IH' unfolding e by (simp add: S1(1))
qed

text \<open>
  With exact arithmetic the fade makes the density decay. Let the time step and the diffusion
  rate be not negative and let every cell of \<open>density\<close> and of the work buffer \<open>s\<close> lie in
  \<open>[0, M]\<close> before the tick. Then for every fade rate \<open>r\<close> in \<open>(0, 1]\<close> one step leaves every
  density cell in \<open>[0, (1 - r) * M]\<close>; and if the grid has an interior cell and the iteration
  count is at least \<open>1\<close>, then after \<open>k + 1\<close> steps with nothing injected every density cell
  lies in \<open>[0, (1 - r) * \<rho>\<^sup>k * M]\<close>, where \<open>\<rho> = decay_rate r a < 1\<close> and \<open>a\<close> is the diffusion
  coefficient \<open>dt * diff * (N - 2)\<^sup>2\<close>. This is a property of the exact computation only: the
  source rounds every stored cell to single precision, which can exceed \<open>(1 - r) * M\<close> in the
  last bit.
\<close>

lemma decay_in_exact_arithmetic:
  assumes "wf_solver S" "bounded_field 0 M (density S)" "bounded_field 0 M (s S)"
    "0 \<le> dt S" "0 \<le> diff S"
    "1 + 6 * (dt S * visc S * real_of_int (sizeN S - 2) * real_of_int (sizeN S - 2)) \<noteq> 0"
    "0 < fadeRate" "fadeRate \<le> 1"
  shows "(\<exists>S'. step S iter fadeRate = Inr S' \<and> wf_solver S'
            \<and> bounded_field 0 ((1 - fadeRate) * M) (density S') \<and> bounded_field 0 M (s S'))
       \<and> (1 \<le> sizeN S \<and> 1 \<le> iter \<longrightarrow>
            decay_rate fadeRate
              (dt S * diff S * real_of_int (sizeN S - 2) * real_of_int (sizeN S - 2)) < 1
          \<and> (\<forall>k. \<exists>S'. steps (Suc k) S iter fadeRate = Inr S'
                \<and> bounded_field 0
                    ((1 - fadeRate) *
                     (decay_rate fadeRate
                        (dt S * diff S * real_of_int (sizeN S - 2) * real_of_int (sizeN S - 2)) ^ k
                      * M))
                    (density S')))"
proof -
  let ?a = "dt S * diff S * real_of_int (sizeN S - 2) * real_of_int (sizeN S - 2)"
  have a: "0 \<le> ?a" by (rule diffusion_coefficient_nonneg [OF assms(4,5)])
  have b: "list_all (\<lambda>v. 0 \<le> v \<and> v \<le> M) (density S)" "list_all (\<lambda>v. 0 \<le> v \<and> v \<le> M) (s S)"
    using assms(2,3) by (simp_all add: bounded_field_def)
  have M: "0 \<le> M"
  proof -
    have "wf_field (sizeN S) (s S)" using assms(1) by (simp add: wf_solver_def)
    then have "rd (sizeN S) (s S) 0 0 \<in> set (s S)"
      using IX_in_field [of "sizeN S" "s S" 0 0] by (simp add: rd_def)
    then show ?thesis using b(2) by (auto simp: list_all_iff)
  qed
  obtain S1 where S1: "step S iter fadeRate = Inr S1" "wf_solver S1" "sizeN S1 = sizeN S"
    "dt S1 = dt S" "diff S1 = diff S" "visc S1 = visc S"
    "list_all (\<lambda>v. 0 \<le> v \<and> v \<le> (1 - fadeRate) * M) (density S1)"
    "list_all (\<lambda>v. 0 \<le> v \<and> v \<le> M) (s S1)"
    using step_bound [OF assms(1) assms(4,5) assms(6) assms(7,8) b, of iter] by blast
  have one: "\<exists>S'. step S iter fadeRate = Inr S' \<and> wf_solver S'
            \<and> bounded_field 0 ((1 - fadeRate) * M) (density S') \<and> bounded_field 0 M (s S')"
    using S1 by (simp add: bounded_field_def)
  have many: "\<exists>S'. steps (Suc k) S iter fadeRate = Inr S'
                \<and> bounded_field 0 ((1 - fadeRate) * (decay_rate fadeRate ?a ^ k * M)) (density S')"
    if "1 \<le> sizeN S" "1 \<le> iter" for k
  proof -
    have "\<exists>S'. steps k S1 iter fadeRate = Inr S'
         \<and> list_all (\<lambda>v. 0 \<le> v \<and> v \<le> (1 - fadeRate) *
               (decay_rate fadeRate (dt S1 * diff S1 * real_of_int (sizeN S1 - 2)
                    * real_of_int (sizeN S1 - 2)) ^ k * M))
             (density S')"
      by (rule steps_decay [OF S1(2) _ that(2) _ _ _ assms(7,8) M S1(7,8)])
        (use assms that in \<open>simp_all add: S1\<close>)
    then show ?thesis by (simp add: S1 bounded_field_def)
  qed
  have "decay_rate fadeRate ?a < 1" by (rule decay_rate_bounds(2) [OF assms(7,8) a])
  with one many show ?thesis by blast
qed

subsection \<open>The fade keeps the largest density\<close>





end
